theory Spec2Isabelle
  imports Complex_Main "HOL-Library.Multiset"
begin

section \<open>Gyroad: pieces, board and candidate squares\<close>

text \<open>
  The development follows \<^verbatim>\<open>src/game.js\<close> (first copy, lines 1 to 1527), the variant
  with the bot. Where a statement also concerns \<^verbatim>\<open>src/main.js\<close> the definition taken
  from that file carries the suffix \<open>_main\<close>.

  Board coordinates are JavaScript numbers that only ever hold integers; they are
  modelled by \<^typ>\<open>int\<close>. A key \<^verbatim>\<open>keyXY(x, y)\<close> is the string \<^verbatim>\<open>"x,y"\<close>, and
  \<^verbatim>\<open>unkeyXY\<close> parses it back; on integers the two are inverse to each other, so a key is
  modelled by the pair itself.
\<close>

type_synonym pos = "int \<times> int"

record piece =
  pid :: nat
  px :: int
  py :: int
  ptype :: string
  player :: int
  rotation :: int
  movedLastTurn :: bool
  rotatedThisTurn :: bool

definition BOARD_WIDTH :: int where
  "BOARD_WIDTH = 7"

definition BOARD_HEIGHT :: int where
  "BOARD_HEIGHT = 8"

definition keyXY :: "piece \<Rightarrow> pos" where
  "keyXY p = (px p, py p)"

text \<open>JavaScript's \<^verbatim>\<open>%\<close> truncates towards zero: the result has the sign of the dividend.\<close>

definition js_rem :: "int \<Rightarrow> int \<Rightarrow> int" where
  "js_rem a n = sgn a * (\<bar>a\<bar> mod \<bar>n\<bar>)"

text \<open>\<^verbatim>\<open>type.replace(/e$/, "")\<close>: one trailing \<^verbatim>\<open>e\<close> is dropped.\<close>

definition strip_e :: "string \<Rightarrow> string" where
  "strip_e s = (if s \<noteq> [] \<and> last s = CHR ''e'' then butlast s else s)"

text \<open>
  \<^verbatim>\<open>rotateDir\<close>. The four right angles are a lookup. The fallback of the source rounds a
  cosine and a sine computed in double precision (\<^verbatim>\<open>Math.round(Math.cos(rad))\<close>).
  At a multiple of 90 the computed values differ from \<open>0\<close>, \<open>1\<close> or \<open>- 1\<close> by less than a
  millionth and round to them. At every other angle the result depends on the rounding of the
  floating-point library (the sine of 30 degrees is computed just below one half), which
  is not modelled: \<open>rounded_turn\<close> is left unspecified there. The rotation of a piece is a
  multiple of 90 outside the rotation animation, and in \<^verbatim>\<open>game.js\<close> the lookup answers
  for these before the fallback is reached.
\<close>

definition rounded_turn :: "int \<Rightarrow> int \<times> int" where
  "rounded_turn a =
     (if a mod 360 = 0 then (1, 0)
      else if a mod 360 = 90 then (0, 1)
      else if a mod 360 = 180 then (- 1, 0)
      else if a mod 360 = 270 then (0, - 1)
      else undefined)"

declare rounded_turn_def [code del]

definition rotateDir :: "int \<Rightarrow> int \<Rightarrow> int \<Rightarrow> pos" where
  "rotateDir dx dy angle =
     (let a = js_rem (js_rem angle 360 + 360) 360 in
      if a = 0 then (dx, dy)
      else if a = 90 then (- dy, dx)
      else if a = 180 then (- dx, - dy)
      else if a = 270 then (dy, - dx)
      else
        (let c = fst (rounded_turn a); s = snd (rounded_turn a)
         in (c * dx - s * dy, s * dx + c * dy)))"

definition isValidPosition :: "int \<Rightarrow> int \<Rightarrow> bool" where
  "isValidPosition x y \<longleftrightarrow> x \<ge> 0 \<and> x < BOARD_WIDTH \<and> y \<ge> 0 \<and> y < BOARD_HEIGHT"

text \<open>The direction frame of \<^verbatim>\<open>getAvailableSquares\<close>: player 1 and everybody else.\<close>

definition up :: "int \<Rightarrow> pos" where
  "up pl = (if pl = 1 then (0, - 1) else (0, 1))"

definition down :: "int \<Rightarrow> pos" where
  "down pl = (if pl = 1 then (0, 1) else (0, - 1))"

definition left :: "int \<Rightarrow> pos" where
  "left pl = (if pl = 1 then (- 1, 0) else (1, 0))"

definition right :: "int \<Rightarrow> pos" where
  "right pl = (if pl = 1 then (1, 0) else (- 1, 0))"

text \<open>The list \<^verbatim>\<open>dirs\<close> of \<^verbatim>\<open>getAvailableSquares\<close> in \<^verbatim>\<open>game.js\<close>, before rotation.\<close>

definition dirs :: "string \<Rightarrow> int \<Rightarrow> pos list" where
  "dirs ty pl =
     (let t = strip_e ty; u = up pl; d = down pl; l = left pl; r = right pl in
      if t = ''PR'' then [l, (fst r, snd r + snd d)]
      else if t = ''PL'' then [r, (fst l, snd l + snd d)]
      else if t = ''PX'' then
        [(fst r + fst u, snd r + snd u), (fst r + fst d, snd r + snd d),
         (fst l + fst u, snd l + snd u), (fst l + fst d, snd l + snd d)]
      else if t = ''DP'' then [u, (fst u * 2, snd u * 2), l, r]
      else if t = ''DT'' then
        [u, (fst u + fst l, snd u + snd l), (fst u + fst r, snd u + snd r), d]
      else if t = ''DN'' then [u, d, (fst l * 2, snd l * 2), (fst r * 2, snd r * 2)]
      else if t = ''C'' then
        [u, (fst d + fst l, snd d + snd l), (fst d + fst r, snd d + snd r)]
      else [])"

text \<open>
  The rotated offsets \<^verbatim>\<open>adjusted\<close>. The source memoises them per piece in
  \<^verbatim>\<open>relativeDirsCache\<close>, keyed by the angle; type and player of a piece never change and
  every assignment to \<^verbatim>\<open>rotation\<close> outside the animation clears the cache, so the cached
  list is the computed one.
\<close>

definition adjusted :: "piece \<Rightarrow> pos list" where
  "adjusted p =
     (let rot = js_rem (js_rem (rotation p) 360 + 360) 360;
          angle = js_rem (- rot + 360) 360
      in map (\<lambda>d. rotateDir (fst d) (snd d) angle) (dirs (ptype p) (player p)))"

definition getAvailableSquares :: "piece \<Rightarrow> pos list" where
  "getAvailableSquares p =
     filter (\<lambda>q. isValidPosition (fst q) (snd q))
       (map (\<lambda>d. (px p + fst d, py p + snd d)) (adjusted p))"

subsection \<open>The variant of \<^verbatim>\<open>main.js\<close>\<close>

text \<open>
  In \<^verbatim>\<open>main.js\<close> the type is cleaned with \<^verbatim>\<open>replace('e', '')\<close>, which drops the first
  \<^verbatim>\<open>e\<close> of the string, the rotation is always computed with rounded cosine and sine, and
  the second offset of \<^verbatim>\<open>PR\<close> and \<^verbatim>\<open>PL\<close> adds \<^verbatim>\<open>up\<close> where \<^verbatim>\<open>game.js\<close> adds
  \<^verbatim>\<open>down\<close>.
\<close>

fun drop_first_e :: "string \<Rightarrow> string" where
  "drop_first_e [] = []"
| "drop_first_e (c # cs) = (if c = CHR ''e'' then cs else c # drop_first_e cs)"

definition rotateDirection_main :: "int \<Rightarrow> int \<Rightarrow> int \<Rightarrow> pos" where
  "rotateDirection_main dx dy angle =
     (let cosTheta = fst (rounded_turn angle); sinTheta = snd (rounded_turn angle)
      in (cosTheta * dx - sinTheta * dy, sinTheta * dx + cosTheta * dy))"

definition dirs_main :: "string \<Rightarrow> int \<Rightarrow> pos list" where
  "dirs_main ty pl =
     (let t = drop_first_e ty; u = up pl; d = down pl; l = left pl; r = right pl in
      if t = ''PR'' then [l, (fst r, snd r + snd u)]
      else if t = ''PL'' then [r, (fst l, snd l + snd u)]
      else if t = ''PX'' then
        [(fst r + fst u, snd r + snd u), (fst r + fst d, snd r + snd d),
         (fst l + fst u, snd l + snd u), (fst l + fst d, snd l + snd d)]
      else if t = ''DP'' then [u, (fst u * 2, snd u * 2), l, r]
      else if t = ''DT'' then
        [u, (fst u + fst l, snd u + snd l), (fst u + fst r, snd u + snd r), d]
      else if t = ''DN'' then [u, d, (fst l * 2, snd l * 2), (fst r * 2, snd r * 2)]
      else if t = ''C'' then
        [u, (fst d + fst l, snd d + snd l), (fst d + fst r, snd d + snd r)]
      else [])"

definition adjusted_main :: "piece \<Rightarrow> pos list" where
  "adjusted_main p =
     (let rot = js_rem (rotation p) 360
      in map (\<lambda>d. rotateDirection_main (fst d) (snd d) (- rot)) (dirs_main (ptype p) (player p)))"

section \<open>The board and the chain resolver\<close>

text \<open>
  The grid \<^verbatim>\<open>boardRef\<close> is an array of rows, read as \<^verbatim>\<open>boardRef[y][x]\<close>; an empty cell
  holds \<^verbatim>\<open>null\<close>. A read outside a row yields \<^verbatim>\<open>undefined\<close>, which the source treats
  like an empty cell, and a read of a missing row throws. \<open>cell\<close> answers \<open>None\<close> in both
  cases; on a well-formed board every read the modelled functions make is inside the grid
  (\<open>wf_board\<close>, and theorem \<open>candidate_squares_on_board\<close> below).
\<close>

type_synonym board = "piece option list list"

definition cell :: "board \<Rightarrow> int \<Rightarrow> int \<Rightarrow> piece option" where
  "cell b x y =
     (if 0 \<le> y \<and> nat y < length b \<and> 0 \<le> x \<and> nat x < length (b ! nat y)
      then b ! nat y ! nat x else None)"

definition piece_at :: "board \<Rightarrow> pos \<Rightarrow> piece option" where
  "piece_at b q = cell b (fst q) (snd q)"

definition wf_board :: "board \<Rightarrow> bool" where
  "wf_board b \<longleftrightarrow> length b = nat BOARD_HEIGHT \<and> list_all (\<lambda>row. length row = nat BOARD_WIDTH) b"

text \<open>Grid and pieces agree: the piece stored in a cell carries the coordinates of the cell.\<close>

definition consistent :: "board \<Rightarrow> bool" where
  "consistent b \<longleftrightarrow>
     list_all (\<lambda>(y, row).
        list_all (\<lambda>(x, c). case c of None \<Rightarrow> True | Some p \<Rightarrow> px p = int x \<and> py p = int y)
          (enumerate 0 row))
       (enumerate 0 b)"

definition on_board :: "board \<Rightarrow> piece \<Rightarrow> bool" where
  "on_board b p \<longleftrightarrow> piece_at b (keyXY p) = Some p"

definition board_pieces :: "board \<Rightarrow> piece list" where
  "board_pieces b = List.map_filter (\<lambda>c. c) (concat b)"

text \<open>
  A JavaScript \<^verbatim>\<open>Set\<close> keeps its elements in insertion order and \<^verbatim>\<open>add\<close> of a present
  element changes nothing: a list without repetitions, extended at the end.
\<close>

definition set_add :: "'a \<Rightarrow> 'a list \<Rightarrow> 'a list" where
  "set_add k s = (if k \<in> set s then s else s @ [k])"

record resolved =
  accessibleSquares :: "pos list"
  visitedPositions :: "pos list"
  visitedPieces :: "pos list"

text \<open>First loop of \<^verbatim>\<open>getAllAccessibleSquaresForBoard\<close>: the occupied candidate squares.\<close>

definition occupied_step :: "board \<Rightarrow> pos \<Rightarrow> pos list \<times> piece list \<Rightarrow> pos list \<times> piece list" where
  "occupied_step b q st =
     (if isValidPosition (fst q) (snd q) then
        (case cell b (fst q) (snd q) of
           None \<Rightarrow> st
         | Some target \<Rightarrow> (set_add q (fst st), snd st @ [target]))
      else st)"

text \<open>
  Second loop: one target. The state is \<open>(accessibleSquares, visitedPositions, visitedPieces)\<close>;
  the two visited sets are shared with the recursive call \<open>rec\<close>, whose own accessible
  squares are merged into the caller's. \<open>None\<close> stands for a recursive call that did not
  return.
\<close>

definition link_step ::
  "(piece \<Rightarrow> pos list \<Rightarrow> pos list \<Rightarrow> resolved option) \<Rightarrow> piece \<Rightarrow> piece \<Rightarrow> piece \<Rightarrow>
     (pos list \<times> pos list \<times> pos list) option \<Rightarrow> (pos list \<times> pos list \<times> pos list) option" where
  "link_step rec piece originPiece target sto =
     (case sto of
        None \<Rightarrow> None
      | Some (acc, vpos, vpcs) \<Rightarrow>
          (let tkey = keyXY target in
           if player target = player piece \<and> tkey \<notin> set vpcs then
             (if tkey \<noteq> keyXY originPiece then
                (case rec target vpos vpcs of
                   None \<Rightarrow> None
                 | Some res \<Rightarrow>
                     Some (fold set_add (accessibleSquares res) acc,
                           visitedPositions res, visitedPieces res))
              else Some (acc, vpos, vpcs))
           else if player target \<noteq> player piece then Some (set_add tkey acc, vpos, vpcs)
           else Some (acc, vpos, vpcs)))"

text \<open>Third loop: the candidate squares of the friendly targets other than the origin.\<close>

definition offer_square :: "pos \<Rightarrow> pos list \<times> pos list \<Rightarrow> pos list \<times> pos list" where
  "offer_square q st =
     (if isValidPosition (fst q) (snd q) \<and> q \<notin> set (snd st)
      then (set_add q (fst st), snd st @ [q]) else st)"

definition offer_step :: "piece \<Rightarrow> piece \<Rightarrow> piece \<Rightarrow> pos list \<times> pos list \<Rightarrow> pos list \<times> pos list" where
  "offer_step piece originPiece target st =
     (if player target = player piece \<and> keyXY target \<noteq> keyXY originPiece
      then fold offer_square (getAvailableSquares target) st else st)"

text \<open>
  The resolver. The source recurses without a bound; the model counts the nesting depth
  down from its first argument and answers \<open>None\<close> when it is used up. The second argument
  \<open>ord\<close> rearranges \<^verbatim>\<open>piecesOnAvailable\<close> before the second and third loop run over it;
  the source is the instance where \<open>ord\<close> is the identity.
\<close>

fun resolve ::
  "nat \<Rightarrow> (piece list \<Rightarrow> piece list) \<Rightarrow> board \<Rightarrow> piece \<Rightarrow> piece \<Rightarrow> pos list \<Rightarrow> pos list \<Rightarrow>
     resolved option" where
  "resolve 0 ord b originPiece piece vpos vpcs = None"
| "resolve (Suc n) ord b originPiece piece vpos vpcs =
     (let vpcs1 = set_add (keyXY piece) vpcs;
          found = fold (occupied_step b) (getAvailableSquares piece) ([], []);
          piecesOnAvailable = ord (snd found)
      in case fold (link_step (\<lambda>t vp vc. resolve n ord b originPiece t vp vc) piece originPiece)
                piecesOnAvailable (Some (fst found, vpos, vpcs1)) of
           None \<Rightarrow> None
         | Some (acc2, vpos2, vpcs2) \<Rightarrow>
             (let offered = fold (offer_step piece originPiece) piecesOnAvailable (acc2, vpos2)
              in Some \<lparr>accessibleSquares = fst offered, visitedPositions = snd offered,
                       visitedPieces = vpcs2\<rparr>))"

definition resolver_depth :: nat where
  "resolver_depth = Suc (nat (BOARD_WIDTH * BOARD_HEIGHT))"

definition getAllAccessibleSquaresForBoard_ord ::
  "(piece list \<Rightarrow> piece list) \<Rightarrow> piece \<Rightarrow> piece \<Rightarrow> board \<Rightarrow> resolved option" where
  "getAllAccessibleSquaresForBoard_ord ord piece originPiece boardRef =
     resolve resolver_depth ord boardRef originPiece piece [] []"

definition getAllAccessibleSquaresForBoard :: "piece \<Rightarrow> piece \<Rightarrow> board \<Rightarrow> resolved option" where
  "getAllAccessibleSquaresForBoard piece originPiece boardRef =
     getAllAccessibleSquaresForBoard_ord (\<lambda>ts. ts) piece originPiece boardRef"

subsection \<open>What the resolver is meant to compute\<close>

text \<open>
  The pieces linked to \<open>s\<close>: \<open>s\<close> itself and, step by step, every piece of the same player
  standing on a candidate square of a linked piece.
\<close>

inductive_set linked :: "board \<Rightarrow> piece \<Rightarrow> piece set" for b :: board and s :: piece where
  origin: "s \<in> linked b s"
| hop: "p \<in> linked b s \<Longrightarrow> q \<in> set (getAvailableSquares p) \<Longrightarrow> piece_at b q = Some t \<Longrightarrow>
        player t = player p \<Longrightarrow> t \<in> linked b s"

subsection \<open>Sets and invariants of the traversal\<close>

definition cells :: "pos set" where
  "cells = {q. isValidPosition (fst q) (snd q)}"

definition offers :: "board \<Rightarrow> piece \<Rightarrow> pos set" where
  "offers b p = {q \<in> set (getAvailableSquares p). piece_at b q \<noteq> None}"

definition occupants :: "board \<Rightarrow> piece \<Rightarrow> piece set" where
  "occupants b p = {t. \<exists>q \<in> set (getAvailableSquares p). piece_at b q = Some t}"

definition friends :: "board \<Rightarrow> piece \<Rightarrow> piece set" where
  "friends b p = {t \<in> occupants b p. player t = player p}"

definition members :: "board \<Rightarrow> pos set \<Rightarrow> piece set" where
  "members b N = {p. on_board b p \<and> keyXY p \<in> N}"

definition Occ :: "board \<Rightarrow> pos set \<Rightarrow> pos set" where
  "Occ b N = (\<Union>p \<in> members b N. offers b p)"

definition Lks :: "board \<Rightarrow> piece \<Rightarrow> pos set \<Rightarrow> pos set" where
  "Lks b og N = (\<Union>p \<in> members b N. \<Union>t \<in> {t \<in> friends b p. keyXY t \<noteq> keyXY og}. set (getAvailableSquares t))"

definition closed :: "board \<Rightarrow> pos set \<Rightarrow> pos set \<Rightarrow> bool" where
  "closed b N V \<longleftrightarrow> (\<forall>p \<in> members b N. keyXY ` friends b p \<subseteq> V)"

definition offered :: "piece \<Rightarrow> piece \<Rightarrow> piece set \<Rightarrow> pos set" where
  "offered P og T = (\<Union>t \<in> {t \<in> T. player t = player P \<and> keyXY t \<noteq> keyXY og}. set (getAvailableSquares t))"

definition grows ::
  "board \<Rightarrow> piece \<Rightarrow> pos set \<Rightarrow> pos list \<Rightarrow> pos list \<Rightarrow> pos list \<Rightarrow> pos list \<Rightarrow> pos list \<Rightarrow> pos list \<Rightarrow> bool" where
  "grows b og E acc vpos vpcs acc' vpos' vpcs' \<longleftrightarrow>
     set vpcs \<subseteq> set vpcs' \<and> (distinct vpcs \<longrightarrow> distinct vpcs') \<and>
     set vpcs' - set vpcs \<subseteq> keyXY ` linked b og \<and>
     closed b (set vpcs' - set vpcs) (set vpcs') \<and>
     set vpos' = set vpos \<union> Lks b og (set vpcs' - set vpcs) \<and>
     set acc' = set acc \<union> E \<union> Occ b (set vpcs' - set vpcs) \<union> (Lks b og (set vpcs' - set vpcs) - set vpos)"

definition pre :: "board \<Rightarrow> piece \<Rightarrow> nat \<Rightarrow> piece \<Rightarrow> pos list \<Rightarrow> bool" where
  "pre b og n p vpcs \<longleftrightarrow>
     on_board b p \<and> p \<in> linked b og \<and> keyXY p \<notin> set vpcs \<and>
     (keyXY og \<in> set vpcs \<or> keyXY og = keyXY p) \<and> card (cells - set vpcs) \<le> n"

definition rec_ok ::
  "board \<Rightarrow> piece \<Rightarrow> nat \<Rightarrow> (piece \<Rightarrow> pos list \<Rightarrow> pos list \<Rightarrow> resolved option) \<Rightarrow> bool" where
  "rec_ok b og n rec \<longleftrightarrow>
     (\<forall>t vp vc. pre b og n t vc \<longrightarrow>
        (\<exists>r. rec t vp vc = Some r \<and>
           grows b og {} [] vp vc (accessibleSquares r) (visitedPositions r) (visitedPieces r) \<and>
           keyXY t \<in> set (visitedPieces r)))"

section \<open>The path finder\<close>

text \<open>
  \<^verbatim>\<open>findMovementPathForBoard\<close> searches backwards from the destination, breadth first.
  A queue entry is a position together with the path that led to it; \<open>expand\<close> is the
  body of the loop over the pieces considered for one entry.
\<close>

definition expand ::
  "pos \<Rightarrow> pos list \<Rightarrow> piece \<Rightarrow> (pos \<times> pos list) list \<times> pos list \<Rightarrow> (pos \<times> pos list) list \<times> pos list" where
  "expand q path p st =
     (if q \<in> set (getAvailableSquares p) then
        (let pkey = keyXY p in
         if pkey \<notin> set (snd st) then (fst st @ [(pkey, path @ [pkey])], snd st @ [pkey]) else st)
      else st)"

lemma expand_step:
  "set (snd st) \<subseteq> set (snd (expand q path p st))"
  "set (snd (expand q path p st)) \<subseteq> insert (keyXY p) (set (snd st))"
  "set (snd (expand q path p st)) = set (snd st) \<Longrightarrow> expand q path p st = st"
  by (auto simp: expand_def Let_def)

lemma expand_fold_mono: "set (snd st) \<subseteq> set (snd (fold (expand q path) ps st))"
proof (induction ps arbitrary: st)
  case Nil
  show ?case by simp
next
  case (Cons p ps)
  have "set (snd st) \<subseteq> set (snd (expand q path p st))"
    by (rule expand_step)
  also have "\<dots> \<subseteq> set (snd (fold (expand q path) ps (expand q path p st)))"
    by (rule Cons.IH)
  finally show ?case
    by simp
qed

lemma expand_fold_upper:
  "set (snd (fold (expand q path) ps st)) \<subseteq> set (snd st) \<union> keyXY ` set ps"
proof (induction ps arbitrary: st)
  case Nil
  show ?case by simp
next
  case (Cons p ps)
  have "set (snd (fold (expand q path) ps (expand q path p st)))
      \<subseteq> set (snd (expand q path p st)) \<union> keyXY ` set ps"
    by (rule Cons.IH)
  also have "\<dots> \<subseteq> insert (keyXY p) (set (snd st)) \<union> keyXY ` set ps"
    using expand_step(2) [of q path p st] by blast
  finally show ?case
    by auto
qed

lemma expand_fold_same:
  "set (snd (fold (expand q path) ps st)) = set (snd st) \<Longrightarrow> fold (expand q path) ps st = st"
proof (induction ps arbitrary: st)
  case Nil
  show ?case by simp
next
  case (Cons p ps)
  let ?s1 = "expand q path p st"
  from Cons.prems have e: "set (snd (fold (expand q path) ps ?s1)) = set (snd st)"
    by simp
  have "set (snd ?s1) \<subseteq> set (snd (fold (expand q path) ps ?s1))"
    by (rule expand_fold_mono)
  with e expand_step(1) [of st q path p] have s1: "set (snd ?s1) = set (snd st)"
    by blast
  then have "?s1 = st"
    by (rule expand_step(3))
  with e Cons.IH [of st] show ?case
    by simp
qed

text \<open>
  The \<^verbatim>\<open>while (queue.length > 0)\<close> loop. Every round either marks a further piece
  position as visited or leaves the visited set alone and shortens the queue.
\<close>

function bfs_loop ::
  "pos \<Rightarrow> piece list \<Rightarrow> piece list \<Rightarrow> (pos \<times> pos list) list \<Rightarrow> pos list \<Rightarrow> pos list option" where
  "bfs_loop goal accessibleFirstStep accessiblePieces [] visited = None"
| "bfs_loop goal accessibleFirstStep accessiblePieces ((q, path) # queue) visited =
     (if q = goal then Some (rev path)
      else
        (let consider = (if length path = 1 then accessibleFirstStep else accessiblePieces);
             st = fold (expand q path) consider (queue, visited)
         in bfs_loop goal accessibleFirstStep accessiblePieces (fst st) (snd st)))"
  by pat_completeness auto

termination
proof (relation "inv_image (finite_psubset <*lex*> less_than)
    (\<lambda>(goal, first, every, queue, visited).
       (keyXY ` set (first @ every) - set visited, length queue))")
  show "wf (inv_image (finite_psubset <*lex*> less_than)
    (\<lambda>(goal, first, every, queue, visited).
       (keyXY ` set (first @ every) - set visited, length queue)))"
    by (intro wf_inv_image wf_lex_prod wf_finite_psubset wf_less_than)
next
  fix goal :: pos and first every :: "piece list" and q :: pos and path :: "pos list"
    and queue :: "(pos \<times> pos list) list" and visited :: "pos list"
    and cs :: "piece list" and st :: "(pos \<times> pos list) list \<times> pos list"
  assume c: "cs = (if length path = 1 then first else every)"
    and st: "st = fold (expand q path) cs (queue, visited)"
  let ?K = "keyXY ` set (first @ every)"
  from expand_fold_mono [of "(queue, visited)" q path cs] st
  have sub: "set visited \<subseteq> set (snd st)"
    by simp
  from expand_fold_upper [of q path cs "(queue, visited)"] st
  have up: "set (snd st) \<subseteq> set visited \<union> keyXY ` set cs"
    by simp
  from expand_fold_same [of q path cs "(queue, visited)"] st
  have same: "set (snd st) = set visited \<longrightarrow> st = (queue, visited)"
    by simp
  from c have "keyXY ` set cs \<subseteq> ?K"
    by auto
  with up have inK: "set (snd st) - set visited \<subseteq> ?K"
    by auto
  obtain queue' visited' where st': "st = (queue', visited')"
    by (cases st)
  show "((goal, first, every, fst st, snd st), goal, first, every, (q, path) # queue, visited)
      \<in> inv_image (finite_psubset <*lex*> less_than)
        (\<lambda>(goal, first, every, queue, visited).
           (keyXY ` set (first @ every) - set visited, length queue))"
  proof (cases "set visited' = set visited")
    case True
    with same st' have "queue' = queue"
      by simp
    with True st' show ?thesis
      by simp
  next
    case False
    with sub inK st' have "?K - set visited' \<subset> ?K - set visited"
      by auto
    moreover have "finite (?K - set visited)"
      by simp
    ultimately show ?thesis
      unfolding st' by (simp add: finite_psubset_def)
  qed
qed

text \<open>
  The set \<^verbatim>\<open>accessiblePieces\<close>: the pieces of the mover found at the visited positions.
  Its elements are objects; two pieces on different squares differ in their coordinates,
  so equality of records stands for identity.
\<close>

definition collect_piece :: "board \<Rightarrow> piece \<Rightarrow> pos \<Rightarrow> piece list \<Rightarrow> piece list" where
  "collect_piece b selected k acc =
     (case cell b (fst k) (snd k) of
        None \<Rightarrow> acc
      | Some p \<Rightarrow> if player p = player selected then set_add p acc else acc)"

definition findMovementPathForBoard :: "piece \<Rightarrow> pos \<Rightarrow> board \<Rightarrow> pos list option option" where
  "findMovementPathForBoard selected destination boardRef =
     (case getAllAccessibleSquaresForBoard selected selected boardRef of
        None \<Rightarrow> None
      | Some res \<Rightarrow>
          (let accessiblePieces = fold (collect_piece boardRef selected) (visitedPieces res) [];
               destEmpty = (cell boardRef (fst destination) (snd destination) = None);
               accessibleFirstStep =
                 (if destEmpty then removeAll selected accessiblePieces else accessiblePieces)
           in Some (bfs_loop (keyXY selected) accessibleFirstStep accessiblePieces
                      [(destination, [destination])] [destination])))"

text \<open>
  The outer \<open>None\<close> of the result stands for a resolver that did not return, \<open>Some None\<close>
  for the \<^verbatim>\<open>null\<close> of the source, \<open>Some (Some path)\<close> for a path, selected piece first.

  The relation the path has to respect, read from the destination back to the selected
  piece: each position is a candidate square of the piece standing on the next one.
\<close>

fun chain_ok :: "board \<Rightarrow> pos list \<Rightarrow> bool" where
  "chain_ok b (x # y # rest) =
     ((case piece_at b y of None \<Rightarrow> False | Some p \<Rightarrow> x \<in> set (getAvailableSquares p)) \<and>
      chain_ok b (y # rest))"
| "chain_ok b [x] = True"
| "chain_ok b [] = True"

subsection \<open>Invariants of the search\<close>

fun hops :: "piece set \<Rightarrow> pos list \<Rightarrow> bool" where
  "hops E (x # y # rest) =
     ((\<exists>p \<in> E. keyXY p = y \<and> x \<in> set (getAvailableSquares p)) \<and> hops E (y # rest))"
| "hops E [x] = True"
| "hops E [] = True"

definition good_path :: "pos \<Rightarrow> piece set \<Rightarrow> piece set \<Rightarrow> pos \<Rightarrow> pos list \<Rightarrow> bool" where
  "good_path D F E q path \<longleftrightarrow>
     path \<noteq> [] \<and> hd path = D \<and> last path = q \<and> hops E path \<and> (length path = 1 \<longleftrightarrow> q = D) \<and>
     (2 \<le> length path \<longrightarrow> (\<exists>p \<in> F. keyXY p = path ! 1 \<and> D \<in> set (getAvailableSquares p)))"

definition bfs_inv ::
  "pos \<Rightarrow> pos \<Rightarrow> piece list \<Rightarrow> piece list \<Rightarrow> (pos \<times> pos list) list \<Rightarrow> pos list \<Rightarrow> bool" where
  "bfs_inv D goal first every queue vis \<longleftrightarrow>
     D \<in> set vis \<and>
     (\<forall>e \<in> set queue. fst e \<in> set vis \<and> good_path D (set first) (set every) (fst e) (snd e)) \<and>
     (\<forall>v \<in> set vis. v \<in> fst ` set queue \<or>
        (\<forall>p \<in> set (if v = D then first else every).
           v \<in> set (getAvailableSquares p) \<longrightarrow> keyXY p \<in> set vis)) \<and>
     (goal \<in> set vis \<longrightarrow> goal \<in> fst ` set queue)"

definition reaches :: "pos \<Rightarrow> pos \<Rightarrow> piece list \<Rightarrow> piece list \<Rightarrow> bool" where
  "reaches D goal first every \<longleftrightarrow>
     (\<forall>V. D \<in> V \<and>
        (\<forall>v \<in> V. \<forall>p \<in> set (if v = D then first else every).
           v \<in> set (getAvailableSquares p) \<longrightarrow> keyXY p \<in> V) \<longrightarrow> goal \<in> V)"

section \<open>Moves, promotion and the change of turn\<close>

text \<open>
  The game state of \<^verbatim>\<open>game.js\<close>: the module variables \<^verbatim>\<open>pieces\<close>, \<^verbatim>\<open>board\<close>,
  \<^verbatim>\<open>currentPlayer\<close>, \<^verbatim>\<open>rotationChances\<close>, \<^verbatim>\<open>playerScores\<close> and \<^verbatim>\<open>gameOver\<close>, and
  likewise the fields of the state object the bot searches on. A piece is an object that
  the piece collection and a grid cell both refer to; the model keeps a copy in each place
  and identifies the object by its \<^verbatim>\<open>id\<close>, so that an assignment to a field of a piece
  is applied to the collection and to the grid (\<open>assign\<close>).
\<close>

record game =
  pieces :: "piece list"
  grid :: board
  currentPlayer :: int
  rotationChances :: int
  playerScores :: "int \<Rightarrow> int"
  gameOver :: bool

definition BOT_PLAYER :: int where
  "BOT_PLAYER = 2"

definition canBeSelected :: "piece \<Rightarrow> int \<Rightarrow> bool" where
  "canBeSelected p currPlayer \<longleftrightarrow> player p = currPlayer \<and> \<not> movedLastTurn p \<and> \<not> rotatedThisTurn p"

definition otherPlayer :: "int \<Rightarrow> int" where
  "otherPlayer p = (if p = 1 then 2 else 1)"

definition makeEmptyBoard :: board where
  "makeEmptyBoard = replicate (nat BOARD_HEIGHT) (replicate (nat BOARD_WIDTH) None)"

text \<open>
  \<^verbatim>\<open>board[y][x] = v\<close>. Every write of the modelled functions is at the position of a piece;
  outside the grid, where JavaScript would throw or grow the row, \<open>put\<close> leaves the board
  as it is.
\<close>

definition put :: "board \<Rightarrow> int \<Rightarrow> int \<Rightarrow> piece option \<Rightarrow> board" where
  "put b x y v =
     (if 0 \<le> y \<and> nat y < length b \<and> 0 \<le> x \<and> nat x < length (b ! nat y)
      then b[nat y := (b ! nat y)[nat x := v]] else b)"

definition place :: "piece list \<Rightarrow> board" where
  "place ps = fold (\<lambda>p b. put b (px p) (py p) (Some p)) ps makeEmptyBoard"

definition rebuildBoard :: "game \<Rightarrow> game" where
  "rebuildBoard g = g\<lparr>grid := place (pieces g)\<rparr>"

definition assign :: "nat \<Rightarrow> (piece \<Rightarrow> piece) \<Rightarrow> game \<Rightarrow> game" where
  "assign i f g =
     g\<lparr>pieces := map (\<lambda>p. if pid p = i then f p else p) (pieces g),
       grid := map (map (map_option (\<lambda>p. if pid p = i then f p else p))) (grid g)\<rparr>"

definition promotable :: "piece \<Rightarrow> bool" where
  "promotable p \<longleftrightarrow> (let t = strip_e (ptype p) in t = ''PR'' \<or> t = ''PL'')"

definition promoRow :: "piece \<Rightarrow> int" where
  "promoRow p = (if player p = 1 then 0 else BOARD_HEIGHT - 1)"

definition promotes :: "piece \<Rightarrow> bool" where
  "promotes p \<longleftrightarrow> promotable p \<and> py p = promoRow p"

subsection \<open>The live game: \<^verbatim>\<open>endTurn\<close> and the end of the animation in \<^verbatim>\<open>update\<close>\<close>

definition clear_flags :: "int \<Rightarrow> piece \<Rightarrow> piece" where
  "clear_flags cp p =
     (if player p = cp then p\<lparr>movedLastTurn := False, rotatedThisTurn := False\<rparr>
      else if movedLastTurn p then p\<lparr>movedLastTurn := False\<rparr> else p)"

text \<open>
  The loop of \<^verbatim>\<open>endTurn\<close> assigns to the pieces of the collection; a grid cell shows the
  assignment when it refers to one of them.
\<close>

definition reset_flags :: "game \<Rightarrow> game" where
  "reset_flags g =
     g\<lparr>pieces := map (clear_flags (currentPlayer g)) (pieces g),
       grid := map (map (map_option
         (\<lambda>p. if pid p \<in> set (map pid (pieces g)) then clear_flags (currentPlayer g) p else p)))
         (grid g)\<rparr>"

definition endTurn :: "game \<Rightarrow> game" where
  "endTurn g = reset_flags (g\<lparr>currentPlayer := (if currentPlayer g = 1 then 2 else 1), rotationChances := 2\<rparr>)"

text \<open>
  The promotion loop of \<^verbatim>\<open>update\<close> runs over the indices from the last to the first;
  \<open>promote_loop i\<close> is the part of the loop that is left when the indices from \<open>i\<close> on are
  done. \<^verbatim>\<open>splice(i, 1)\<close> removes the element at index \<open>i\<close>.
\<close>

fun promote_loop :: "nat \<Rightarrow> game \<Rightarrow> game" where
  "promote_loop 0 g = g"
| "promote_loop (Suc i) g =
     (let p = pieces g ! i in
      promote_loop i
        (if promotes p then
           g\<lparr>grid := put (grid g) (px p) (py p) None,
             pieces := take i (pieces g) @ drop (Suc i) (pieces g),
             playerScores := (playerScores g)(player p := playerScores g (player p) + 1)\<rparr>
         else g))"

definition win_check :: "game \<Rightarrow> game" where
  "win_check g = (if playerScores g 1 \<ge> 6 \<or> playerScores g 2 \<ge> 6 then g\<lparr>gameOver := True\<rparr> else g)"

definition update_after_animation :: "game \<Rightarrow> game" where
  "update_after_animation g =
     (let g1 = rebuildBoard g;
          g2 = promote_loop (length (pieces g1)) g1;
          g3 = win_check g2
      in if \<not> gameOver g3 then endTurn g3 else g3)"

text \<open>
  The move itself. \<^verbatim>\<open>onPointerDown\<close> accepts a tap on a highlighted square for which the
  path finder returns a path, and starts the animation; the animation of a piece ends by
  setting its coordinates to the last position of its \<^verbatim>\<open>movementPath\<close>: the destination
  for the selected piece, the square the selected piece left for a swapped piece. The
  frames in between only change what is drawn. \<open>None\<close> stands for a tap that starts no
  move: the game is over, it is the turn of the bot, the tap is on the selected piece
  itself (which cancels the selection), the square is not highlighted or no path is found.
  The set \<^verbatim>\<open>highlightedPositions\<close> is an argument. What \<^verbatim>\<open>onPointerDown\<close> writes to the
  board is replaced when \<^verbatim>\<open>update\<close> rebuilds the board from the pieces, before anything
  reads it. \<open>landed sel dest\<close> is the selected piece standing on its destination.
\<close>

definition relocate :: "nat \<Rightarrow> pos \<Rightarrow> piece list \<Rightarrow> piece list" where
  "relocate i q ps = map (\<lambda>p. if pid p = i then p\<lparr>px := fst q, py := snd q\<rparr> else p) ps"


definition animation_done :: "game \<Rightarrow> piece \<Rightarrow> pos list \<Rightarrow> piece option \<Rightarrow> game" where
  "animation_done g selectedPiece path targetPiece =
     (let moved = relocate (pid selectedPiece) (last path) (pieces g) in
      case targetPiece of
        None \<Rightarrow> g\<lparr>pieces := moved\<rparr>
      | Some t \<Rightarrow> g\<lparr>pieces := relocate (pid t) (keyXY selectedPiece) moved\<rparr>)"

definition moveOrSwap :: "game \<Rightarrow> pos list \<Rightarrow> piece \<Rightarrow> pos \<Rightarrow> game option" where
  "moveOrSwap g highlightedPositions selectedPiece sq =
     (if gameOver g \<or> currentPlayer g = BOT_PLAYER then None
      else if sq = keyXY selectedPiece then None
      else if sq \<in> set highlightedPositions then
        (case findMovementPathForBoard selectedPiece sq (grid g) of
           Some (Some path) \<Rightarrow>
             Some (update_after_animation
                     (animation_done g selectedPiece path (cell (grid g) (fst sq) (snd sq))))
         | _ \<Rightarrow> None)
      else None)"

text \<open>
  A tap on a board square while no piece is selected: the guards of \<^verbatim>\<open>onPointerDown\<close> on
  \<^verbatim>\<open>gameOver\<close> and on the turn of the bot, and the first branch of its board interactions.
  \<open>None\<close> stands for a tap that selects nothing. The other guards of the source (the bot
  is thinking, pieces are animating, a button is hit, rotate mode) only turn further taps
  into ones that select nothing.
\<close>

definition selectPiece :: "game \<Rightarrow> pos \<Rightarrow> piece option" where
  "selectPiece g sq =
     (if gameOver g \<or> currentPlayer g = BOT_PLAYER then None
      else
        (case cell (grid g) (fst sq) (snd sq) of
           None \<Rightarrow> None
         | Some clickedPiece \<Rightarrow>
             if canBeSelected clickedPiece (currentPlayer g) then Some clickedPiece else None))"

subsection \<open>The live move of the bot: \<^verbatim>\<open>thinkAndMove\<close>\<close>

text \<open>
  An action of the bot: rotation plans \<^verbatim>\<open>{id, times}\<close> and a move \<^verbatim>\<open>{id, dest}\<close>. A missing
  or empty \<^verbatim>\<open>rotations\<close> array is the empty list.
\<close>

record rotation_plan =
  rid :: nat
  times :: int

record action =
  rotations :: "rotation_plan list"
  move_id :: nat
  move_dest :: pos

text \<open>
  \<^verbatim>\<open>thinkAndMove\<close> applies the action that \<^verbatim>\<open>computeBestAction\<close> returns to the live game.
  The search is not modelled: its result \<^verbatim>\<open>best\<close> is an argument, \<open>None\<close> for \<^verbatim>\<open>null\<close>.
  The rotations are applied at once, to the piece that \<^verbatim>\<open>pieces.find\<close> returns, which
  \<open>assign\<close> addresses by its id; the move is animated and finished by \<^verbatim>\<open>update\<close> like the
  move of the player. \<open>None\<close> stands for a call that starts no move.
\<close>

definition live_rotate :: "piece \<Rightarrow> piece" where
  "live_rotate p = p\<lparr>rotation := js_rem (rotation p - 90 + 360) 360, rotatedThisTurn := True\<rparr>"

fun bot_rotations :: "rotation_plan list \<Rightarrow> game \<Rightarrow> game" where
  "bot_rotations [] g = g"
| "bot_rotations (r # rs) g =
     (case List.find (\<lambda>pp. pid pp = rid r) (pieces g) of
        None \<Rightarrow> bot_rotations rs g
      | Some p \<Rightarrow>
          (let n = nat (times r) in
           bot_rotations rs
             ((assign (rid r) (live_rotate ^^ n) g)
                \<lparr>rotationChances := ((\<lambda>c. max 0 (c - 1)) ^^ n) (rotationChances g)\<rparr>)))"

definition bot_rotated :: "game \<Rightarrow> action \<Rightarrow> game" where
  "bot_rotated g a =
     (if rotations a \<noteq> [] then bot_rotations (rotations a) (g\<lparr>rotationChances := 2\<rparr>) else g)"

definition thinkAndMove :: "game \<Rightarrow> action option \<Rightarrow> game option" where
  "thinkAndMove g best =
     (if currentPlayer g \<noteq> BOT_PLAYER then None
      else
        (case best of
           None \<Rightarrow> None
         | Some a \<Rightarrow>
             (let g1 = bot_rotated g a; dest = move_dest a in
              case List.find (\<lambda>pp. pid pp = move_id a) (pieces g1) of
                None \<Rightarrow> None
              | Some realPiece \<Rightarrow>
                  (case findMovementPathForBoard realPiece dest (grid g1) of
                     Some (Some path) \<Rightarrow>
                       Some (update_after_animation
                               (animation_done g1 realPiece path (cell (grid g1) (fst dest) (snd dest))))
                   | _ \<Rightarrow> None))))"

subsection \<open>The simulation of the bot: \<^verbatim>\<open>applyAction\<close>\<close>



definition rotate_once :: "piece \<Rightarrow> piece" where
  "rotate_once p = p\<lparr>rotation := js_rem (rotation p - 90 + 360) 360\<rparr>"




definition end_turn_sim :: "game \<Rightarrow> game" where
  "end_turn_sim st =
     (let st1 = reset_flags (st\<lparr>currentPlayer := otherPlayer (currentPlayer st)\<rparr>)
      in if playerScores st1 1 \<ge> 6 \<or> playerScores st1 2 \<ge> 6 then st1\<lparr>gameOver := True\<rparr> else st1)"


section \<open>Concrete pieces and boards\<close>

definition pr1 :: piece where
  "pr1 = \<lparr>pid = 8, px = 0, py = 6, ptype = ''PR'', player = 1, rotation = 0,
     movedLastTurn = False, rotatedThisTurn = False\<rparr>"

definition dt_rot :: piece where
  "dt_rot = \<lparr>pid = 2, px = 1, py = 7, ptype = ''DT'', player = 1, rotation = 270,
     movedLastTurn = False, rotatedThisTurn = False\<rparr>"

definition dt_rot_e :: piece where
  "dt_rot_e = \<lparr>pid = 16, px = 5, py = 0, ptype = ''DTe'', player = 2, rotation = 270,
     movedLastTurn = False, rotatedThisTurn = False\<rparr>"

subsection \<open>Boards\<close>

definition mk :: "nat \<Rightarrow> int \<Rightarrow> int \<Rightarrow> string \<Rightarrow> int \<Rightarrow> piece" where
  "mk i x y t pl = \<lparr>pid = i, px = x, py = y, ptype = t, player = pl, rotation = 0,
      movedLastTurn = False, rotatedThisTurn = False\<rparr>"

definition chainA :: piece where "chainA = mk 1 3 7 ''DP'' 1"

definition chainB :: piece where "chainB = mk 2 3 6 ''PR'' 1"

definition foe :: piece where "foe = mk 3 3 5 ''PLe'' 2"

definition board_chain :: board where "board_chain = place [chainA, chainB, foe]"

definition chainC :: piece where "chainC = mk 4 4 7 ''PL'' 1"

definition board_fork :: board where "board_fork = place [chainA, chainB, foe, chainC]"

definition corner :: piece where "corner = mk 9 0 0 ''DN'' 1"

definition board_long :: board where
  "board_long = place [mk 1 1 7 ''PR'' 1, mk 2 0 7 ''DP'' 1, mk 3 0 5 ''DP'' 1, mk 4 0 3 ''DP'' 1,
     mk 5 0 1 ''DP'' 1, mk 6 0 0 ''PLe'' 2]"

subsection \<open>Games\<close>

text \<open>
  A game at the start of a player's turn, with the grid built from the pieces as
  \<^verbatim>\<open>rebuildBoard\<close> does and both scores at zero.
\<close>

definition start_of :: "piece list \<Rightarrow> int \<Rightarrow> game" where
  "start_of ps cp = \<lparr>pieces = ps, grid = place ps, currentPlayer = cp, rotationChances = 2,
     playerScores = (\<lambda>_. 0), gameOver = False\<rparr>"







definition chain_game :: game where
  "chain_game = start_of [chainA, chainB, foe] 1"

definition chain_squares :: "pos list" where
  "chain_squares = [(3, 6), (3, 5), (2, 6), (4, 7)]"




definition duel_game :: game where
  "duel_game = start_of [chainA, chainB, foe, mk 12 6 0 ''DPe'' 2, mk 13 6 2 ''DPe'' 2] 1"

definition bot_reply :: action where
  "bot_reply = \<lparr>rotations = [\<lparr>rid = 13, times = 1\<rparr>], move_id = 12, move_dest = (6, 2)\<rparr>"

section \<open>Arithmetic of the rotation\<close>

lemma js_rem_nonneg: "0 \<le> a \<Longrightarrow> js_rem a 360 = a mod 360"
  by (cases "a = 0") (simp_all add: js_rem_def)

lemma js_rem_bounds: "- 360 < js_rem a 360 \<and> js_rem a 360 < 360"
proof -
  have "0 \<le> \<bar>a\<bar> mod 360" and "\<bar>a\<bar> mod 360 < 360"
    by simp_all
  then show ?thesis
    by (cases "a < 0"; cases "a = 0") (simp_all add: js_rem_def)
qed

lemma js_rem_cong: "js_rem a 360 mod 360 = a mod 360"
proof (cases "a < 0")
  case True
  have "(- (\<bar>a\<bar> mod 360)) mod 360 = (- \<bar>a\<bar>) mod 360"
    by (simp add: mod_minus_eq)
  with True show ?thesis
    by (simp add: js_rem_def)
next
  case False
  then show ?thesis
    by (cases "a = 0") (simp_all add: js_rem_def)
qed

lemma normalise_angle: "js_rem (js_rem a 360 + 360) 360 = a mod 360"
proof -
  have "0 \<le> js_rem a 360 + 360"
    using js_rem_bounds [of a] by linarith
  then have "js_rem (js_rem a 360 + 360) 360 = (js_rem a 360 + 360) mod 360"
    by (rule js_rem_nonneg)
  also have "\<dots> = js_rem a 360 mod 360"
    by simp
  finally show ?thesis
    by (simp add: js_rem_cong)
qed

lemma quarter_turns:
  assumes "90 dvd (r::int)"
  shows "r mod 360 = 0 \<or> r mod 360 = 90 \<or> r mod 360 = 180 \<or> r mod 360 = 270"
proof -
  from assms obtain k where k: "r = 90 * k"
    by (auto simp: dvd_def)
  have "k mod 4 = 0 \<or> k mod 4 = 1 \<or> k mod 4 = 2 \<or> k mod 4 = 3"
    by presburger
  moreover have "r mod 360 = 90 * (k mod 4)"
    using k by (simp add: mult_mod_right)
  ultimately show ?thesis
    by auto
qed

lemma angle_of_rotation:
  "js_rem (- js_rem (js_rem r 360 + 360) 360 + 360) 360 = (- r) mod 360"
proof -
  have b: "0 \<le> r mod 360" "r mod 360 < 360"
    by simp_all
  then have "0 \<le> - (r mod 360) + 360"
    by linarith
  then have "js_rem (- (r mod 360) + 360) 360 = (- (r mod 360) + 360) mod 360"
    by (rule js_rem_nonneg)
  also have "\<dots> = (- r) mod 360"
    by (simp add: mod_minus_eq)
  finally show ?thesis
    by (simp add: normalise_angle)
qed

lemma adjusted_eq:
  "adjusted p =
     map (\<lambda>d. rotateDir (fst d) (snd d) ((- rotation p) mod 360)) (dirs (ptype p) (player p))"
  by (simp only: adjusted_def Let_def angle_of_rotation)

lemma rotateDir_mod: "rotateDir dx dy (a mod 360) = rotateDir dx dy a"
  by (simp add: rotateDir_def normalise_angle)

lemma rotateDir_quarter:
  "rotateDir dx dy a =
     (if a mod 360 = 0 then (dx, dy)
      else if a mod 360 = 90 then (- dy, dx)
      else if a mod 360 = 180 then (- dx, - dy)
      else if a mod 360 = 270 then (dy, - dx)
      else (fst (rounded_turn (a mod 360)) * dx - snd (rounded_turn (a mod 360)) * dy,
            snd (rounded_turn (a mod 360)) * dx + fst (rounded_turn (a mod 360)) * dy))"
  unfolding rotateDir_def normalise_angle Let_def by (rule refl)

lemma rotateDir_neg:
  assumes "90 dvd a"
  shows "rotateDir (- dx) (- dy) a = (- fst (rotateDir dx dy a), - snd (rotateDir dx dy a))"
  using quarter_turns [OF assms] by (auto simp: rotateDir_quarter)

lemma dirs_neg: "q \<noteq> 1 \<Longrightarrow> dirs t q = map (\<lambda>d. (- fst d, - snd d)) (dirs t 1)"
  by (simp add: dirs_def Let_def up_def down_def left_def right_def)

lemma dirs_base_type: "strip_e t = strip_e t' \<Longrightarrow> dirs t pl = dirs t' pl"
  by (simp add: dirs_def)

lemma adjusted_unrotated:
  "rotation p = 0 \<Longrightarrow> adjusted p = dirs (ptype p) (player p)"
  by (simp add: adjusted_eq rotateDir_quarter)

lemma adjusted_main_unrotated:
  "rotation p = 0 \<Longrightarrow> adjusted_main p = dirs_main (ptype p) (player p)"
  by (simp add: adjusted_main_def rotateDirection_main_def rounded_turn_def js_rem_def)

lemma dirs_PR:
  "strip_e t = ''PR'' \<Longrightarrow>
     dirs t pl = [left pl, (fst (right pl), snd (right pl) + snd (down pl))]"
  by (simp add: dirs_def Let_def)

lemma dirs_main_PR:
  "drop_first_e t = ''PR'' \<Longrightarrow>
     dirs_main t pl = [left pl, (fst (right pl), snd (right pl) + snd (up pl))]"
  by (simp add: dirs_main_def Let_def)

lemma frame_values:
  "left pl = (if pl = 1 then (- 1, 0) else (1, 0))"
  "fst (right pl) = (if pl = 1 then 1 else - 1)"
  "snd (right pl) = 0"
  "fst (down pl) = 0"
  "fst (up pl) = 0"
  "snd (down pl) = (if pl = 1 then 1 else - 1)"
  "snd (up pl) = (if pl = 1 then - 1 else 1)"
  by (simp_all add: up_def down_def left_def right_def)

section \<open>The resolver computes the linked pieces and their squares\<close>

lemma cells_eq: "cells = {0..<7} \<times> {0..<8}"
  by (auto simp: cells_def isValidPosition_def BOARD_WIDTH_def BOARD_HEIGHT_def)

lemma finite_cells: "finite cells"
  by (simp add: cells_eq)

lemma card_cells: "card cells = 56"
  by (simp add: cells_eq card_cartesian_product)

lemma available_valid: "q \<in> set (getAvailableSquares p) \<Longrightarrow> isValidPosition (fst q) (snd q)"
  by (simp add: getAvailableSquares_def)

lemma available_cells: "set (getAvailableSquares p) \<subseteq> cells"
  using available_valid by (fastforce simp: cells_def)

lemma cell_valid:
  assumes "wf_board b" and "cell b x y = Some p"
  shows "isValidPosition x y"
proof -
  from assms(2) have r: "0 \<le> y" "nat y < length b" "0 \<le> x" "nat x < length (b ! nat y)"
    by (auto simp: cell_def split: if_splits)
  from assms(1) r(2) have "length (b ! nat y) = nat BOARD_WIDTH" and "length b = nat BOARD_HEIGHT"
    by (auto simp: wf_board_def list_all_length)
  with r have "nat x < 7" and "nat y < 8"
    by (simp_all add: BOARD_WIDTH_def BOARD_HEIGHT_def)
  with r(1,3) have "x < 7" and "y < 8"
    by linarith+
  with r(1,3) show ?thesis
    by (simp add: isValidPosition_def BOARD_WIDTH_def BOARD_HEIGHT_def)
qed

lemma consistent_nth:
  "consistent b \<longleftrightarrow>
     (\<forall>n<length b. \<forall>m<length (b ! n).
        case b ! n ! m of None \<Rightarrow> True | Some p \<Rightarrow> px p = int m \<and> py p = int n)"
  by (simp add: consistent_def list_all_length nth_enumerate_eq)

lemma cell_consistent:
  assumes "consistent b" and "cell b x y = Some p"
  shows "px p = x \<and> py p = y"
proof -
  from assms(2) have r: "0 \<le> y" "nat y < length b" "0 \<le> x" "nat x < length (b ! nat y)"
    and v: "b ! nat y ! nat x = Some p"
    by (auto simp: cell_def split: if_splits)
  from assms(1) r(2,4)
  have "case b ! nat y ! nat x of None \<Rightarrow> True | Some p \<Rightarrow> px p = int (nat x) \<and> py p = int (nat y)"
    unfolding consistent_nth by blast
  with v r(1,3) show ?thesis
    by simp
qed

lemma piece_at_key: "consistent b \<Longrightarrow> piece_at b q = Some p \<Longrightarrow> keyXY p = q"
  using cell_consistent [of b "fst q" "snd q" p] by (simp add: piece_at_def keyXY_def)

lemma piece_at_on_board: "consistent b \<Longrightarrow> piece_at b q = Some p \<Longrightarrow> on_board b p"
  by (simp add: on_board_def piece_at_key)

lemma on_board_cells: "wf_board b \<Longrightarrow> on_board b p \<Longrightarrow> keyXY p \<in> cells"
  using cell_valid [of b "px p" "py p" p] by (simp add: on_board_def piece_at_def keyXY_def cells_def)

lemma on_board_inj: "on_board b p \<Longrightarrow> on_board b t \<Longrightarrow> keyXY p = keyXY t \<Longrightarrow> p = t"
  by (simp add: on_board_def)

lemma set_set_add [simp]: "set (set_add k s) = insert k (set s)"
  by (auto simp: set_add_def)

lemma distinct_set_add [simp]: "distinct (set_add k s) = distinct s"
  by (auto simp: set_add_def)

lemma set_fold_set_add [simp]: "set (fold set_add xs acc) = set xs \<union> set acc"
  by (induction xs arbitrary: acc) auto

lemma fold_occupied_fst:
  "set (fst (fold (occupied_step b) qs st)) =
      set (fst st) \<union> {q \<in> set qs. isValidPosition (fst q) (snd q) \<and> piece_at b q \<noteq> None}"
  by (induction qs arbitrary: st)
    (auto simp: occupied_step_def piece_at_def split: option.splits if_splits)

lemma fold_occupied_snd:
  "set (snd (fold (occupied_step b) qs st)) =
      set (snd st) \<union> {t. \<exists>q \<in> set qs. isValidPosition (fst q) (snd q) \<and> piece_at b q = Some t}"
  by (induction qs arbitrary: st)
    (auto simp: occupied_step_def piece_at_def split: option.splits if_splits)

lemma found_offers:
  "set (fst (fold (occupied_step b) (getAvailableSquares p) ([], []))) = offers b p"
  using available_valid by (fastforce simp: fold_occupied_fst offers_def)

lemma found_occupants:
  "set (snd (fold (occupied_step b) (getAvailableSquares p) ([], []))) = occupants b p"
proof -
  have "\<And>q. q \<in> set (getAvailableSquares p) \<Longrightarrow> isValidPosition (fst q) (snd q)"
    by (rule available_valid)
  then show ?thesis
    unfolding fold_occupied_snd occupants_def by auto
qed

lemma fold_offer_square_snd:
  "set (snd (fold offer_square qs st)) = set (snd st) \<union> {q \<in> set qs. isValidPosition (fst q) (snd q)}"
  by (induction qs arbitrary: st) (auto simp: offer_square_def)

lemma fold_offer_square_fst:
  "set (fst (fold offer_square qs st)) =
       set (fst st) \<union> ({q \<in> set qs. isValidPosition (fst q) (snd q)} - set (snd st))"
  by (induction qs arbitrary: st) (auto simp: offer_square_def)

lemma offer_available_snd:
  "set (snd (fold offer_square (getAvailableSquares t) st)) = set (snd st) \<union> set (getAvailableSquares t)"
  using available_valid by (fastforce simp: fold_offer_square_snd)

lemma offer_available_fst:
  "set (fst (fold offer_square (getAvailableSquares t) st)) =
     set (fst st) \<union> (set (getAvailableSquares t) - set (snd st))"
  using available_valid by (fastforce simp: fold_offer_square_fst)

lemma offered_insert:
  "offered P og (insert t T) =
     (if player t = player P \<and> keyXY t \<noteq> keyXY og then set (getAvailableSquares t) else {}) \<union> offered P og T"
  by (auto simp: offered_def)

lemma offered_empty [simp]: "offered P og {} = {}"
  by (simp add: offered_def)

lemma fold_offer_step_snd:
  "set (snd (fold (offer_step P og) ts st)) = set (snd st) \<union> offered P og (set ts)"
  by (induction ts arbitrary: st)
    (auto simp: offer_step_def offer_available_snd offered_insert)

lemma fold_offer_step_fst:
  "set (fst (fold (offer_step P og) ts st)) = set (fst st) \<union> (offered P og (set ts) - set (snd st))"
  by (induction ts arbitrary: st)
    (auto simp: offer_step_def offer_available_fst offer_available_snd offered_insert)

lemma members_Un: "members b (A \<union> B) = members b A \<union> members b B"
  by (auto simp: members_def)

lemma members_empty [simp]: "members b {} = {}"
  by (simp add: members_def)

lemma Occ_Un: "Occ b (A \<union> B) = Occ b A \<union> Occ b B"
  by (simp add: Occ_def members_Un)

lemma Lks_Un: "Lks b og (A \<union> B) = Lks b og A \<union> Lks b og B"
  by (simp add: Lks_def members_Un)

lemma Occ_empty [simp]: "Occ b {} = {}"
  by (simp add: Occ_def)

lemma Lks_empty [simp]: "Lks b og {} = {}"
  by (simp add: Lks_def)

lemma closed_empty [simp]: "closed b {} V"
  by (simp add: closed_def)

lemma closed_Un: "closed b (A \<union> B) V \<longleftrightarrow> closed b A V \<and> closed b B V"
  by (auto simp: closed_def members_Un)

lemma closed_mono: "closed b N V \<Longrightarrow> V \<subseteq> V' \<Longrightarrow> closed b N V'"
  by (auto simp: closed_def)

lemma grows_refl: "grows b og {} acc vpos vpcs acc vpos vpcs"
  by (simp add: grows_def)

lemma grows_enemy: "grows b og {k} acc vpos vpcs (set_add k acc) vpos vpcs"
  by (simp add: grows_def)

lemma grows_trans:
  assumes "grows b og E1 a1 p1 c1 a2 p2 c2" and "grows b og E2 a2 p2 c2 a3 p3 c3"
  shows "grows b og (E1 \<union> E2) a1 p1 c1 a3 p3 c3"
proof -
  let ?M1 = "set c2 - set c1" and ?M2 = "set c3 - set c2" and ?M = "set c3 - set c1"
  from assms have sub: "set c1 \<subseteq> set c2" "set c2 \<subseteq> set c3"
    by (simp_all add: grows_def)
  then have M: "?M = ?M1 \<union> ?M2"
    by auto
  from assms have d: "distinct c1 \<longrightarrow> distinct c3"
    by (simp add: grows_def)
  from assms have l: "?M1 \<subseteq> keyXY ` linked b og" "?M2 \<subseteq> keyXY ` linked b og"
    by (simp_all add: grows_def)
  from assms have "closed b ?M1 (set c2)" and c2: "closed b ?M2 (set c3)"
    by (simp_all add: grows_def)
  with sub have c: "closed b ?M (set c3)"
    unfolding M closed_Un by (auto intro: closed_mono)
  from assms have p2: "set p2 = set p1 \<union> Lks b og ?M1" and p3: "set p3 = set p2 \<union> Lks b og ?M2"
    by (simp_all add: grows_def)
  from assms have a2: "set a2 = set a1 \<union> E1 \<union> Occ b ?M1 \<union> (Lks b og ?M1 - set p1)"
    and a3: "set a3 = set a2 \<union> E2 \<union> Occ b ?M2 \<union> (Lks b og ?M2 - set p2)"
    by (simp_all add: grows_def)
  have p: "set p3 = set p1 \<union> Lks b og ?M"
    unfolding M Lks_Un p3 p2 by auto
  have a: "set a3 = set a1 \<union> (E1 \<union> E2) \<union> Occ b ?M \<union> (Lks b og ?M - set p1)"
    unfolding M Lks_Un Occ_Un a3 a2 p2 by auto
  from sub d l c p a show ?thesis
    unfolding grows_def by auto
qed

lemma linked_player: "p \<in> linked b s \<Longrightarrow> player p = player s"
  by (induction rule: linked.induct) simp_all

lemma occupant_on_board: "consistent b \<Longrightarrow> t \<in> occupants b P \<Longrightarrow> on_board b t"
  by (auto simp: occupants_def intro: piece_at_on_board)

lemma friend_linked:
  "P \<in> linked b og \<Longrightarrow> t \<in> occupants b P \<Longrightarrow> player t = player P \<Longrightarrow> t \<in> linked b og"
  by (auto simp: occupants_def intro: linked.hop)

lemma card_cells_mono: "A \<subseteq> B \<Longrightarrow> card (cells - B) \<le> card (cells - A)"
  by (intro card_mono) (auto simp: finite_cells)

lemma link_step_ok:
  assumes cons: "consistent b" and rec: "rec_ok b og n rec"
    and P: "P \<in> linked b og" and t: "t \<in> occupants b P"
    and og: "keyXY og \<in> set vpcs" and card: "card (cells - set vpcs) \<le> n"
  shows "\<exists>acc' vpos' vpcs'.
     link_step rec P og t (Some (acc, vpos, vpcs)) = Some (acc', vpos', vpcs') \<and>
     grows b og (if player t \<noteq> player P then {keyXY t} else {}) acc vpos vpcs acc' vpos' vpcs' \<and>
     (player t = player P \<longrightarrow> keyXY t \<in> set vpcs')"
proof (cases "player t = player P")
  case False
  then show ?thesis
    by (simp add: link_step_def grows_enemy)
next
  case friendly: True
  show ?thesis
  proof (cases "keyXY t \<in> set vpcs")
    case True
    with friendly show ?thesis
      by (simp add: link_step_def grows_refl)
  next
    case False
    with og have ne: "keyXY t \<noteq> keyXY og"
      by auto
    have "pre b og n t vpcs"
      unfolding pre_def
      using False og card occupant_on_board [OF cons t] friend_linked [OF P t friendly] by simp
    with rec obtain r where r: "rec t vpos vpcs = Some r"
      and g: "grows b og {} [] vpos vpcs (accessibleSquares r) (visitedPositions r) (visitedPieces r)"
      and k: "keyXY t \<in> set (visitedPieces r)"
      unfolding rec_ok_def by blast
    from g have "grows b og {} acc vpos vpcs (fold set_add (accessibleSquares r) acc)
        (visitedPositions r) (visitedPieces r)"
      unfolding grows_def by auto
    with friendly False ne r k show ?thesis
      by (simp add: link_step_def)
  qed
qed

lemma fold_link_ok:
  assumes cons: "consistent b" and rec: "rec_ok b og n rec" and P: "P \<in> linked b og"
  shows "set ts \<subseteq> occupants b P \<Longrightarrow> keyXY og \<in> set vpcs \<Longrightarrow> card (cells - set vpcs) \<le> n \<Longrightarrow>
    \<exists>acc' vpos' vpcs'.
     fold (link_step rec P og) ts (Some (acc, vpos, vpcs)) = Some (acc', vpos', vpcs') \<and>
     grows b og {keyXY t |t. t \<in> set ts \<and> player t \<noteq> player P} acc vpos vpcs acc' vpos' vpcs' \<and>
     (\<forall>t \<in> set ts. player t = player P \<longrightarrow> keyXY t \<in> set vpcs')"
proof (induction ts arbitrary: acc vpos vpcs)
  case Nil
  then show ?case
    by (simp add: grows_refl)
next
  case (Cons t ts)
  let ?E1 = "if player t \<noteq> player P then {keyXY t} else {}"
  let ?E2 = "{keyXY u |u. u \<in> set ts \<and> player u \<noteq> player P}"
  from Cons.prems have t: "t \<in> occupants b P" and ts: "set ts \<subseteq> occupants b P"
    by auto
  from link_step_ok [OF cons rec P t Cons.prems(2,3)]
  obtain a1 p1 c1 where s1: "link_step rec P og t (Some (acc, vpos, vpcs)) = Some (a1, p1, c1)"
    and g1: "grows b og ?E1 acc vpos vpcs a1 p1 c1"
    and k1: "player t = player P \<longrightarrow> keyXY t \<in> set c1"
    by blast
  from g1 have sub: "set vpcs \<subseteq> set c1"
    by (simp add: grows_def)
  with Cons.prems(2) have og1: "keyXY og \<in> set c1"
    by auto
  from card_cells_mono [OF sub] Cons.prems(3) have card1: "card (cells - set c1) \<le> n"
    by simp
  from Cons.IH [OF ts og1 card1]
  obtain a2 p2 c2 where s2: "fold (link_step rec P og) ts (Some (a1, p1, c1)) = Some (a2, p2, c2)"
    and g2: "grows b og ?E2 a1 p1 c1 a2 p2 c2"
    and k2: "\<forall>u \<in> set ts. player u = player P \<longrightarrow> keyXY u \<in> set c2"
    by blast
  from g2 have sub2: "set c1 \<subseteq> set c2"
    by (simp add: grows_def)
  have E: "{keyXY u |u. u \<in> set (t # ts) \<and> player u \<noteq> player P} = ?E1 \<union> ?E2"
    by auto
  have "grows b og (?E1 \<union> ?E2) acc vpos vpcs a2 p2 c2"
    using g1 g2 by (rule grows_trans)
  with s1 s2 k1 k2 sub2 show ?case
    unfolding E by auto
qed

lemma members_single: "on_board b p \<Longrightarrow> members b {keyXY p} = {p}"
  by (auto simp: members_def dest: on_board_inj)

lemma Occ_single: "on_board b p \<Longrightarrow> Occ b {keyXY p} = offers b p"
  by (simp add: Occ_def members_single)

lemma Lks_single: "on_board b p \<Longrightarrow> Lks b og {keyXY p} = offered p og (occupants b p)"
  by (simp add: Lks_def members_single offered_def friends_def)

lemma closed_single:
  "on_board b p \<Longrightarrow> closed b {keyXY p} V \<longleftrightarrow> (\<forall>t \<in> occupants b p. player t = player p \<longrightarrow> keyXY t \<in> V)"
  by (auto simp: closed_def members_single friends_def)

lemma occupant_key_offered:
  "consistent b \<Longrightarrow> t \<in> occupants b p \<Longrightarrow> keyXY t \<in> offers b p"
  by (auto simp: occupants_def offers_def dest: piece_at_key)

lemma resolve_Suc_ok:
  assumes cons: "consistent b" and wf: "wf_board b" and ord: "\<forall>xs. set (ord xs) = set xs"
    and rec: "rec_ok b og n (\<lambda>t vp vc. resolve n ord b og t vp vc)"
    and pre: "pre b og (Suc n) p vpcs"
  shows "\<exists>r. resolve (Suc n) ord b og p vpos vpcs = Some r \<and>
           grows b og {} [] vpos vpcs (accessibleSquares r) (visitedPositions r) (visitedPieces r) \<and>
           keyXY p \<in> set (visitedPieces r)"
proof -
  let ?found = "fold (occupied_step b) (getAvailableSquares p) ([], [])"
  let ?ts = "ord (snd ?found)"
  let ?c1 = "set_add (keyXY p) vpcs"
  let ?E = "{keyXY t |t. t \<in> set ?ts \<and> player t \<noteq> player p}"
  from pre have ob: "on_board b p" and lk: "p \<in> linked b og" and fresh: "keyXY p \<notin> set vpcs"
    and og: "keyXY og \<in> set vpcs \<or> keyXY og = keyXY p" and card: "card (cells - set vpcs) \<le> Suc n"
    by (simp_all add: pre_def)
  have ts: "set ?ts = occupants b p"
    using ord by (simp add: found_occupants)
  have og1: "keyXY og \<in> set ?c1"
    using og by auto
  have "keyXY p \<in> cells - set vpcs"
    using on_board_cells [OF wf ob] fresh by simp
  then have "card (cells - set vpcs) = Suc (card (cells - set vpcs - {keyXY p}))"
    by (intro card.remove) (simp_all add: finite_cells)
  moreover have "cells - set ?c1 = cells - set vpcs - {keyXY p}"
    by auto
  ultimately have card1: "card (cells - set ?c1) \<le> n"
    using card by simp
  from fold_link_ok [OF cons rec lk _ og1 card1, of ?ts "fst ?found" vpos] ts
  obtain a2 p2 c2 where
    f2: "fold (link_step (\<lambda>t vp vc. resolve n ord b og t vp vc) p og) ?ts (Some (fst ?found, vpos, ?c1))
          = Some (a2, p2, c2)"
    and g2: "grows b og ?E (fst ?found) vpos ?c1 a2 p2 c2"
    and k2: "\<forall>t \<in> set ?ts. player t = player p \<longrightarrow> keyXY t \<in> set c2"
    by auto
  let ?off = "fold (offer_step p og) ?ts (a2, p2)"
  let ?r = "\<lparr>accessibleSquares = fst ?off, visitedPositions = snd ?off, visitedPieces = c2\<rparr>"
  have res: "resolve (Suc n) ord b og p vpos vpcs = Some ?r"
    by (simp add: Let_def f2)
  let ?M = "set c2 - set ?c1" and ?N = "set c2 - set vpcs"
  from g2 have sub: "set ?c1 \<subseteq> set c2" and d: "distinct ?c1 \<longrightarrow> distinct c2"
    and l: "?M \<subseteq> keyXY ` linked b og" and c: "closed b ?M (set c2)"
    and p2: "set p2 = set vpos \<union> Lks b og ?M"
    and a2: "set a2 = set (fst ?found) \<union> ?E \<union> Occ b ?M \<union> (Lks b og ?M - set vpos)"
    by (simp_all add: grows_def)
  from sub have kp: "keyXY p \<in> set c2"
    by auto
  with fresh have N: "?N = {keyXY p} \<union> ?M"
    by auto
  have E: "?E \<subseteq> offers b p"
    using ts occupant_key_offered [OF cons] by auto
  have cN: "closed b ?N (set c2)"
    unfolding N closed_Un using c k2 ts by (simp add: closed_single [OF ob])
  have lN: "?N \<subseteq> keyXY ` linked b og"
    unfolding N using l lk by auto
  have pN: "set (snd ?off) = set vpos \<union> Lks b og ?N"
    unfolding N Lks_Un by (auto simp: fold_offer_step_snd ts p2 Lks_single [OF ob])
  have aN: "set (fst ?off) = Occ b ?N \<union> (Lks b og ?N - set vpos)"
    unfolding N Lks_Un Occ_Un using E
    by (auto simp: fold_offer_step_fst ts p2 a2 found_offers Lks_single [OF ob] Occ_single [OF ob])
  have "grows b og {} [] vpos vpcs (fst ?off) (snd ?off) c2"
    unfolding grows_def using sub d cN lN pN aN by auto
  with res kp show ?thesis
    by simp
qed

lemma resolve_ok:
  assumes cons: "consistent b" and wf: "wf_board b" and ord: "\<forall>xs. set (ord xs) = set xs"
  shows "rec_ok b og n (\<lambda>t vp vc. resolve n ord b og t vp vc)"
proof (induction n)
  case 0
  show ?case
    unfolding rec_ok_def
  proof (intro allI impI)
    fix t vp vc
    assume "pre b og 0 t vc"
    then have "keyXY t \<in> cells - set vc" and "card (cells - set vc) = 0"
      using on_board_cells [OF wf] by (simp_all add: pre_def)
    then have False
      by (auto simp: finite_cells)
    then show "\<exists>r. resolve 0 ord b og t vp vc = Some r \<and>
        grows b og {} [] vp vc (accessibleSquares r) (visitedPositions r) (visitedPieces r) \<and>
        keyXY t \<in> set (visitedPieces r)" ..
  qed
next
  case (Suc n)
  show ?case
    unfolding rec_ok_def using resolve_Suc_ok [OF cons wf ord Suc] by blast
qed

lemma linked_on_board:
  assumes "consistent b" and "on_board b s"
  shows "p \<in> linked b s \<Longrightarrow> on_board b p"
  by (induction rule: linked.induct) (auto intro: assms piece_at_on_board)

lemma members_linked:
  assumes "consistent b" and "on_board b s"
  shows "members b (keyXY ` linked b s) = linked b s"
  using linked_on_board [OF assms] by (auto simp: members_def dest: on_board_inj)

lemma closed_contains_linked:
  assumes cons: "consistent b" and s: "on_board b s"
    and c: "closed b N N" and k: "keyXY s \<in> N"
  shows "p \<in> linked b s \<Longrightarrow> keyXY p \<in> N"
proof (induction rule: linked.induct)
  case origin
  show ?case by (rule k)
next
  case (hop p q t)
  from hop.hyps(1) have "on_board b p"
    by (rule linked_on_board [OF cons s])
  with hop.IH have "p \<in> members b N"
    by (simp add: members_def)
  moreover from hop.hyps have "t \<in> friends b p"
    by (auto simp: friends_def occupants_def)
  ultimately show ?case
    using c by (auto simp: closed_def)
qed

lemma Occ_linked:
  assumes "consistent b" and "on_board b s"
  shows "Occ b (keyXY ` linked b s) =
    {q. \<exists>p \<in> linked b s. q \<in> set (getAvailableSquares p) \<and> piece_at b q \<noteq> None}"
  unfolding Occ_def members_linked [OF assms] by (auto simp: offers_def)

lemma Lks_linked:
  assumes cons: "consistent b" and s: "on_board b s"
  shows "Lks b s (keyXY ` linked b s) =
    {q. \<exists>t \<in> linked b s. t \<noteq> s \<and> q \<in> set (getAvailableSquares t)}"
proof (intro set_eqI iffI)
  fix q
  assume "q \<in> Lks b s (keyXY ` linked b s)"
  then obtain p t where "p \<in> linked b s" "t \<in> friends b p" "keyXY t \<noteq> keyXY s"
    "q \<in> set (getAvailableSquares t)"
    unfolding Lks_def members_linked [OF cons s] by auto
  moreover from this have "t \<in> linked b s"
    by (auto simp: friends_def intro: friend_linked)
  ultimately show "q \<in> {q. \<exists>t \<in> linked b s. t \<noteq> s \<and> q \<in> set (getAvailableSquares t)}"
    by auto
next
  fix q
  assume "q \<in> {q. \<exists>t \<in> linked b s. t \<noteq> s \<and> q \<in> set (getAvailableSquares t)}"
  then obtain t where t: "t \<in> linked b s" "t \<noteq> s" "q \<in> set (getAvailableSquares t)"
    by auto
  from t(1,2) obtain p where p: "p \<in> linked b s" "t \<in> friends b p"
    by (cases rule: linked.cases) (auto simp: friends_def occupants_def)
  from t(1) have "on_board b t"
    by (rule linked_on_board [OF cons s])
  with s t(2) have "keyXY t \<noteq> keyXY s"
    by (auto dest: on_board_inj)
  with p t(3) show "q \<in> Lks b s (keyXY ` linked b s)"
    unfolding Lks_def members_linked [OF cons s] by auto
qed

lemma resolver_depth_enough: "card cells \<le> resolver_depth"
  by (simp add: card_cells resolver_depth_def BOARD_WIDTH_def BOARD_HEIGHT_def)

lemma resolve_top:
  assumes cons: "consistent b" and wf: "wf_board b" and ord: "\<forall>xs. set (ord xs) = set xs"
    and s: "on_board b s" and n: "card cells \<le> n"
  shows "\<exists>r. resolve n ord b s s [] [] = Some r \<and>
     distinct (visitedPieces r) \<and>
     set (visitedPieces r) = keyXY ` linked b s \<and>
     set (visitedPositions r) = {q. \<exists>t \<in> linked b s. t \<noteq> s \<and> q \<in> set (getAvailableSquares t)} \<and>
     set (accessibleSquares r) =
       {q. \<exists>p \<in> linked b s. q \<in> set (getAvailableSquares p) \<and> (p \<noteq> s \<or> piece_at b q \<noteq> None)}"
proof -
  have "pre b s n s []"
    using s n by (simp add: pre_def linked.origin)
  with resolve_ok [OF cons wf ord, of s n]
  obtain r where r: "resolve n ord b s s [] [] = Some r"
    and g: "grows b s {} [] [] [] (accessibleSquares r) (visitedPositions r) (visitedPieces r)"
    and k: "keyXY s \<in> set (visitedPieces r)"
    unfolding rec_ok_def by blast
  let ?N = "set (visitedPieces r)"
  from g have d: "distinct (visitedPieces r)" and l: "?N \<subseteq> keyXY ` linked b s"
    and c: "closed b ?N ?N" and p: "set (visitedPositions r) = Lks b s ?N"
    and a: "set (accessibleSquares r) = Occ b ?N \<union> Lks b s ?N"
    by (simp_all add: grows_def)
  from closed_contains_linked [OF cons s c k] l have N: "?N = keyXY ` linked b s"
    by auto
  have a': "set (accessibleSquares r) =
       {q. \<exists>p \<in> linked b s. q \<in> set (getAvailableSquares p) \<and> (p \<noteq> s \<or> piece_at b q \<noteq> None)}"
    unfolding a N Occ_linked [OF cons s] Lks_linked [OF cons s] by auto
  have p': "set (visitedPositions r) = {q. \<exists>t \<in> linked b s. t \<noteq> s \<and> q \<in> set (getAvailableSquares t)}"
    unfolding p N Lks_linked [OF cons s] by (rule refl)
  from r d N p' a' show ?thesis
    by blast
qed

subsection \<open>More fuel changes nothing\<close>

lemma fold_link_None: "fold (link_step rec P og) ts None = None"
  by (induction ts) (simp_all add: link_step_def)

lemma link_step_more:
  assumes "\<And>t vp vc r. rec t vp vc = Some r \<Longrightarrow> rec' t vp vc = Some r"
    and "link_step rec P og t sto = Some s'"
  shows "link_step rec' P og t sto = Some s'"
  using assms(2) assms(1)
  by (auto simp: link_step_def Let_def split: option.splits if_splits prod.splits)

lemma fold_link_more:
  assumes "\<And>t vp vc r. rec t vp vc = Some r \<Longrightarrow> rec' t vp vc = Some r"
  shows "fold (link_step rec P og) ts sto = Some s' \<Longrightarrow> fold (link_step rec' P og) ts sto = Some s'"
proof (induction ts arbitrary: sto)
  case Nil
  then show ?case by simp
next
  case (Cons t ts)
  show ?case
  proof (cases "link_step rec P og t sto")
    case None
    with Cons.prems show ?thesis
      by (simp add: fold_link_None)
  next
    case (Some s1)
    from link_step_more [OF assms Some] have "link_step rec' P og t sto = Some s1" .
    with Cons.prems Some Cons.IH [of "Some s1"] show ?thesis
      by simp
  qed
qed

lemma resolve_Suc_fuel:
  "resolve n ord b og p vp vc = Some r \<Longrightarrow> resolve (Suc n) ord b og p vp vc = Some r"
proof (induction n arbitrary: p vp vc r)
  case 0
  then show ?case by simp
next
  case (Suc n)
  note E1 = resolve.simps(2) [of n ord b og p vp vc]
    and E2 = resolve.simps(2) [of "Suc n" ord b og p vp vc]
  let ?found = "fold (occupied_step b) (getAvailableSquares p) ([], [])"
  let ?ts = "ord (snd ?found)"
  let ?s1 = "Some (fst ?found, vp, set_add (keyXY p) vc)"
  let ?fin = "\<lambda>s2. case s2 of (acc2, vpos2, vpcs2) \<Rightarrow>
     Some \<lparr>accessibleSquares = fst (fold (offer_step p og) ?ts (acc2, vpos2)),
           visitedPositions = snd (fold (offer_step p og) ?ts (acc2, vpos2)),
           visitedPieces = vpcs2\<rparr>"
  from Suc.prems obtain s2 where
    f: "fold (link_step (\<lambda>t vp vc. resolve n ord b og t vp vc) p og) ?ts ?s1 = Some s2"
    and r: "?fin s2 = Some r"
    unfolding E1 Let_def by (auto simp del: resolve.simps split: option.splits)
  have "fold (link_step (\<lambda>t vp vc. resolve (Suc n) ord b og t vp vc) p og) ?ts ?s1 = Some s2"
    using f by (rule fold_link_more [rotated]) (rule Suc.IH)
  with r show ?case
    unfolding E2 Let_def by (auto simp del: resolve.simps split: prod.splits)
qed

lemma resolve_more_fuel:
  "resolve n ord b og p vp vc = Some r \<Longrightarrow> n \<le> m \<Longrightarrow> resolve m ord b og p vp vc = Some r"
  by (induction m) (auto simp del: resolve.simps simp: le_Suc_eq resolve_Suc_fuel)

lemma perm_ord_set: "\<forall>xs. mset (ord xs) = mset xs \<Longrightarrow> \<forall>xs. set (ord xs) = set xs"
  by (metis set_mset_mset)

lemma resolver_returns:
  assumes "wf_board b" and "consistent b" and "on_board b s" and "\<forall>xs. set (ord xs) = set xs"
  shows "\<exists>r. getAllAccessibleSquaresForBoard_ord ord s s b = Some r \<and>
     (\<forall>n \<ge> resolver_depth. resolve n ord b s s [] [] = Some r) \<and>
     distinct (visitedPieces r) \<and>
     set (visitedPieces r) = keyXY ` linked b s \<and>
     set (accessibleSquares r) =
       {q. \<exists>p \<in> linked b s. q \<in> set (getAvailableSquares p) \<and> (p \<noteq> s \<or> piece_at b q \<noteq> None)}"
proof -
  from resolve_top [OF assms(2,1,4,3) resolver_depth_enough]
  obtain r where r: "resolve resolver_depth ord b s s [] [] = Some r"
    and rest: "distinct (visitedPieces r)" "set (visitedPieces r) = keyXY ` linked b s"
      "set (accessibleSquares r) =
       {q. \<exists>p \<in> linked b s. q \<in> set (getAvailableSquares p) \<and> (p \<noteq> s \<or> piece_at b q \<noteq> None)}"
    by blast
  from r have "\<forall>n \<ge> resolver_depth. resolve n ord b s s [] [] = Some r"
    by (auto intro: resolve_more_fuel)
  with r rest show ?thesis
    by (auto simp: getAllAccessibleSquaresForBoard_ord_def)
qed

lemma resolver_returns_id:
  assumes "wf_board b" and "consistent b" and "on_board b s"
  shows "\<exists>r. getAllAccessibleSquaresForBoard s s b = Some r \<and>
     (\<forall>n \<ge> resolver_depth. resolve n (\<lambda>ts. ts) b s s [] [] = Some r) \<and>
     distinct (visitedPieces r) \<and>
     set (visitedPieces r) = keyXY ` linked b s \<and>
     set (accessibleSquares r) =
       {q. \<exists>p \<in> linked b s. q \<in> set (getAvailableSquares p) \<and> (p \<noteq> s \<or> piece_at b q \<noteq> None)}"
  unfolding getAllAccessibleSquaresForBoard_def
  using resolver_returns [OF assms, of "\<lambda>ts. ts"] by simp

lemma on_board_in_pieces:
  assumes "on_board b p"
  shows "p \<in> set (board_pieces b)"
proof -
  from assms have r: "nat (py p) < length b" "nat (px p) < length (b ! nat (py p))"
    and v: "b ! nat (py p) ! nat (px p) = Some p"
    by (auto simp: on_board_def piece_at_def keyXY_def cell_def split: if_splits)
  then have "Some p \<in> set (b ! nat (py p))"
    by (metis nth_mem)
  with r(1) have "Some p \<in> set (concat b)"
    by (auto intro: nth_mem)
  then show ?thesis
    by (force simp: board_pieces_def List.map_filter_def)
qed

lemma link_step_visited:
  "keyXY t \<in> set vpcs \<Longrightarrow>
     link_step rec P og t (Some (acc, vpos, vpcs)) =
       Some (if player t \<noteq> player P then set_add (keyXY t) acc else acc, vpos, vpcs)"
  by (simp add: link_step_def)

lemma valid_in_grid:
  assumes "wf_board b" and "isValidPosition x y"
  shows "nat y < length b \<and> nat x < length (b ! nat y)"
proof -
  from assms(2) have "nat y < 8" and "nat x < 7"
    by (auto simp: isValidPosition_def BOARD_WIDTH_def BOARD_HEIGHT_def)
  with assms(1) show ?thesis
    by (auto simp: wf_board_def list_all_length BOARD_WIDTH_def BOARD_HEIGHT_def)
qed

lemma board_chain_ok: "wf_board board_chain \<and> consistent board_chain \<and> on_board board_chain chainA"
  by code_simp

lemma board_fork_ok: "wf_board board_fork \<and> consistent board_fork \<and> on_board board_fork chainA"
  by code_simp

lemma board_chain_resolved:
  "getAllAccessibleSquaresForBoard chainA chainA board_chain =
     Some \<lparr>accessibleSquares = [(3, 6), (3, 5), (2, 6), (4, 7)], visitedPositions = [(2, 6), (4, 7)],
           visitedPieces = [(3, 7), (3, 6)]\<rparr>"
  by code_simp

section \<open>The path finder reaches the selected piece\<close>

lemma hops_snoc:
  "path \<noteq> [] \<Longrightarrow>
     hops E (path @ [k]) \<longleftrightarrow> hops E path \<and> (\<exists>p \<in> E. keyXY p = k \<and> last path \<in> set (getAvailableSquares p))"
  by (induction E path rule: hops.induct) auto

lemma expand_fold_snd:
  "set (snd (fold (expand q path) ps st)) =
     set (snd st) \<union> {keyXY p |p. p \<in> set ps \<and> q \<in> set (getAvailableSquares p)}"
  by (induction ps arbitrary: st) (auto simp: expand_def Let_def)

lemma expand_fold_fst:
  "set (fst (fold (expand q path) ps st)) =
     set (fst st) \<union> (\<lambda>k. (k, path @ [k])) ` (set (snd (fold (expand q path) ps st)) - set (snd st))"
proof (induction ps arbitrary: st)
  case Nil
  show ?case by simp
next
  case (Cons p ps)
  let ?s1 = "expand q path p st"
  let ?s2 = "fold (expand q path) ps ?s1"
  have m: "set (snd ?s1) \<subseteq> set (snd ?s2)"
    by (rule expand_fold_mono)
  have 1: "set (fst ?s1) = set (fst st) \<union> (\<lambda>k. (k, path @ [k])) ` (set (snd ?s1) - set (snd st))"
    and s: "set (snd st) \<subseteq> set (snd ?s1)"
    by (auto simp: expand_def Let_def)
  have "set (fst ?s2) = set (fst ?s1) \<union> (\<lambda>k. (k, path @ [k])) ` (set (snd ?s2) - set (snd ?s1))"
    by (rule Cons.IH)
  also have "\<dots> = set (fst st) \<union> (\<lambda>k. (k, path @ [k])) ` (set (snd ?s2) - set (snd st))"
    unfolding 1 using m s by blast
  finally show ?case
    by simp
qed

lemma good_path_extend:
  assumes g: "good_path D F E q path" and FE: "F \<subseteq> E" and k: "k \<noteq> D"
    and p: "p \<in> (if q = D then F else E)" "keyXY p = k" "q \<in> set (getAvailableSquares p)"
  shows "good_path D F E k (path @ [k])"
proof -
  from g have ne: "path \<noteq> []" and hd: "hd path = D" and last: "last path = q" and h: "hops E path"
    and one: "length path = 1 \<longleftrightarrow> q = D"
    and hop1: "2 \<le> length path \<longrightarrow> (\<exists>p \<in> F. keyXY p = path ! 1 \<and> D \<in> set (getAvailableSquares p))"
    by (simp_all add: good_path_def)
  from p FE have pE: "p \<in> E"
    by (auto split: if_splits)
  with h p last ne have h': "hops E (path @ [k])"
    by (auto simp: hops_snoc)
  have f': "\<exists>p \<in> F. keyXY p = (path @ [k]) ! 1 \<and> D \<in> set (getAvailableSquares p)"
  proof (cases "length path = 1")
    case True
    with one p have "p \<in> F" "q = D"
      by auto
    with True p show ?thesis
      by (auto simp: nth_append)
  next
    case False
    with ne have "2 \<le> length path"
      by (cases path) (auto simp: Suc_le_eq)
    with hop1 show ?thesis
      by (auto simp: nth_append)
  qed
  from ne hd h' f' k show ?thesis
    by (auto simp: good_path_def)
qed

lemma bfs_inv_step:
  assumes inv: "bfs_inv D goal first every ((q, path) # queue) vis"
    and FE: "set first \<subseteq> set every" and ng: "q \<noteq> goal"
    and st: "st = fold (expand q path) (if length path = 1 then first else every) (queue, vis)"
  shows "bfs_inv D goal first every (fst st) (snd st)"
proof -
  let ?cs = "if length path = 1 then first else every"
  let ?new = "{keyXY p |p. p \<in> set ?cs \<and> q \<in> set (getAvailableSquares p)}"
  from inv have D: "D \<in> set vis" and qv: "q \<in> set vis"
    and g: "good_path D (set first) (set every) q path"
    and ents: "\<forall>e \<in> set queue. fst e \<in> set vis \<and> good_path D (set first) (set every) (fst e) (snd e)"
    and cl: "\<forall>v \<in> set vis. v \<in> fst ` set ((q, path) # queue) \<or>
        (\<forall>p \<in> set (if v = D then first else every).
           v \<in> set (getAvailableSquares p) \<longrightarrow> keyXY p \<in> set vis)"
    and gl: "goal \<in> set vis \<longrightarrow> goal \<in> fst ` set ((q, path) # queue)"
    by (simp_all add: bfs_inv_def)
  from g have one: "length path = 1 \<longleftrightarrow> q = D"
    by (simp add: good_path_def)
  then have cs: "?cs = (if q = D then first else every)"
    by simp
  have v': "set (snd st) = set vis \<union> ?new"
    unfolding st expand_fold_snd by simp
  have q': "set (fst st) = set queue \<union> (\<lambda>k. (k, path @ [k])) ` (set (snd st) - set vis)"
    unfolding st using expand_fold_fst [of q path ?cs "(queue, vis)"] by simp
  have 1: "D \<in> set (snd st)"
    using D v' by simp
  have 2: "\<forall>e \<in> set (fst st). fst e \<in> set (snd st) \<and> good_path D (set first) (set every) (fst e) (snd e)"
  proof
    fix e
    assume "e \<in> set (fst st)"
    then consider "e \<in> set queue" | k where "e = (k, path @ [k])" "k \<in> set (snd st)" "k \<notin> set vis"
      unfolding q' by auto
    then show "fst e \<in> set (snd st) \<and> good_path D (set first) (set every) (fst e) (snd e)"
    proof cases
      case 1
      with ents v' show ?thesis
        by auto
    next
      case 2
      from 2(2,3) v' obtain p where p: "p \<in> set ?cs" "keyXY p = k" "q \<in> set (getAvailableSquares p)"
        by auto
      from 2(3) D have "k \<noteq> D"
        by auto
      with g FE p have "good_path D (set first) (set every) k (path @ [k])"
        unfolding cs by (intro good_path_extend [where q = q and p = p]) auto
      with 2 show ?thesis
        by simp
    qed
  qed
  have 3: "\<forall>v \<in> set (snd st). v \<in> fst ` set (fst st) \<or>
        (\<forall>p \<in> set (if v = D then first else every).
           v \<in> set (getAvailableSquares p) \<longrightarrow> keyXY p \<in> set (snd st))"
  proof
    fix v
    assume v: "v \<in> set (snd st)"
    show "v \<in> fst ` set (fst st) \<or>
        (\<forall>p \<in> set (if v = D then first else every).
           v \<in> set (getAvailableSquares p) \<longrightarrow> keyXY p \<in> set (snd st))"
    proof (cases "v \<in> set vis")
      case False
      with v have "(v, path @ [v]) \<in> set (fst st)"
        unfolding q' by simp
      then show ?thesis
        by force
    next
      case True
      show ?thesis
      proof (cases "v = q")
        case True
        then show ?thesis
          unfolding v' cs by auto
      next
        case False
        with cl \<open>v \<in> set vis\<close> have "v \<in> fst ` set queue \<or>
          (\<forall>p \<in> set (if v = D then first else every).
             v \<in> set (getAvailableSquares p) \<longrightarrow> keyXY p \<in> set vis)"
          by auto
        then show ?thesis
          unfolding v' q' by auto
      qed
    qed
  qed
  have 4: "goal \<in> set (snd st) \<longrightarrow> goal \<in> fst ` set (fst st)"
  proof
    assume a: "goal \<in> set (snd st)"
    show "goal \<in> fst ` set (fst st)"
    proof (cases "goal \<in> set vis")
      case True
      with gl ng have "goal \<in> fst ` set queue"
        by auto
      then show ?thesis
        unfolding q' by auto
    next
      case False
      with a have "(goal, path @ [goal]) \<in> set (fst st)"
        unfolding q' by simp
      then show ?thesis
        by force
    qed
  qed
  from 1 2 3 4 show ?thesis
    unfolding bfs_inv_def by blast
qed

lemma bfs_loop_finds:
  "bfs_inv D goal first every queue vis \<Longrightarrow> set first \<subseteq> set every \<Longrightarrow> reaches D goal first every \<Longrightarrow>
    \<exists>path. bfs_loop goal first every queue vis = Some (rev path) \<and>
       good_path D (set first) (set every) goal path"
proof (induction goal first every queue vis rule: bfs_loop.induct)
  case (1 goal first every vis)
  from "1.prems"(1) have "D \<in> set vis"
    and "\<forall>v \<in> set vis. \<forall>p \<in> set (if v = D then first else every).
           v \<in> set (getAvailableSquares p) \<longrightarrow> keyXY p \<in> set vis"
    and "goal \<notin> set vis"
    by (auto simp: bfs_inv_def)
  with "1.prems"(3) have False
    unfolding reaches_def by blast
  then show ?case ..
next
  case (2 goal first every q path queue vis)
  show ?case
  proof (cases "q = goal")
    case True
    with "2.prems"(1) have "good_path D (set first) (set every) goal path"
      by (simp add: bfs_inv_def)
    with True show ?thesis
      by auto
  next
    case False
    let ?st = "fold (expand q path) (if length path = 1 then first else every) (queue, vis)"
    have "bfs_inv D goal first every (fst ?st) (snd ?st)"
      using "2.prems"(1,2) False by (rule bfs_inv_step) (rule refl)
    from "2.IH" [OF False refl refl this "2.prems"(2,3)] False show ?thesis
      by (simp add: Let_def)
  qed
qed

lemma fold_collect_piece:
  "set (fold (collect_piece b s) ks acc) =
     set acc \<union> {p. \<exists>k \<in> set ks. piece_at b k = Some p \<and> player p = player s}"
  by (induction ks arbitrary: acc)
    (auto simp: collect_piece_def piece_at_def split: option.splits)

lemma accessiblePieces_linked:
  assumes cons: "consistent b" and s: "on_board b s" and ks: "set ks = keyXY ` linked b s"
  shows "set (fold (collect_piece b s) ks []) = linked b s"
proof -
  have "{p. \<exists>k \<in> set ks. piece_at b k = Some p \<and> player p = player s} = linked b s"
  proof (intro set_eqI iffI)
    fix p
    assume "p \<in> {p. \<exists>k \<in> set ks. piece_at b k = Some p \<and> player p = player s}"
    then obtain t where t: "t \<in> linked b s" "piece_at b (keyXY t) = Some p"
      unfolding ks by auto
    from linked_on_board [OF cons s t(1)] t(2) have "p = t"
      by (simp add: on_board_def)
    with t show "p \<in> linked b s"
      by simp
  next
    fix p
    assume p: "p \<in> linked b s"
    from linked_on_board [OF cons s p] linked_player [OF p] p
    show "p \<in> {p. \<exists>k \<in> set ks. piece_at b k = Some p \<and> player p = player s}"
      unfolding ks by (auto simp: on_board_def)
  qed
  then show ?thesis
    by (simp add: fold_collect_piece)
qed

lemma reaches_selected:
  assumes cons: "consistent b" and s: "on_board b s"
    and every: "set every = linked b s"
    and first: "set first = (if piece_at b D = None then linked b s - {s} else linked b s)"
    and D: "\<exists>p \<in> linked b s. D \<in> set (getAvailableSquares p) \<and> (p \<noteq> s \<or> piece_at b D \<noteq> None)"
  shows "reaches D (keyXY s) first every"
  unfolding reaches_def
proof (intro allI impI, elim conjE)
  fix V
  assume DV: "D \<in> V"
    and cl: "\<forall>v \<in> V. \<forall>p \<in> set (if v = D then first else every).
           v \<in> set (getAvailableSquares p) \<longrightarrow> keyXY p \<in> V"
  have to_origin: "keyXY t \<in> V \<Longrightarrow> keyXY s \<in> V" if "t \<in> linked b s" for t
    using that
  proof (induction rule: linked.induct)
    case origin
    then show ?case .
  next
    case (hop p q t)
    from hop.hyps(3) have k: "keyXY t = q"
      by (rule piece_at_key [OF cons])
    have "p \<in> set (if keyXY t = D then first else every)"
    proof (cases "keyXY t = D")
      case True
      with k hop.hyps(3) have "piece_at b D \<noteq> None"
        by simp
      with True first hop.hyps(1) show ?thesis
        by simp
    next
      case False
      with every hop.hyps(1) show ?thesis
        by simp
    qed
    with cl hop.prems hop.hyps(2) k have "keyXY p \<in> V"
      by blast
    then show ?case
      by (rule hop.IH)
  qed
  from D obtain p where p: "p \<in> linked b s" "D \<in> set (getAvailableSquares p)"
    "p \<noteq> s \<or> piece_at b D \<noteq> None"
    by blast
  then have "p \<in> set first"
    unfolding first by auto
  with cl DV p(2) have "keyXY p \<in> V"
    by auto
  with to_origin [OF p(1)] show "keyXY s \<in> V"
    by blast
qed

lemma bfs_inv_start: "bfs_inv D goal first every [(D, [D])] [D]"
  by (simp add: bfs_inv_def good_path_def)

lemma hops_chain_ok:
  assumes cons: "consistent b" and s: "on_board b s"
  shows "hops (linked b s) path \<Longrightarrow> chain_ok b path"
proof (induction "linked b s" path rule: hops.induct)
  case (1 x y rest)
  then obtain p where p: "p \<in> linked b s" "keyXY p = y" "x \<in> set (getAvailableSquares p)"
    and r: "hops (linked b s) (y # rest)"
    by auto
  from linked_on_board [OF cons s p(1)] p(2) have "piece_at b y = Some p"
    by (simp add: on_board_def)
  with p(3) r "1.hyps" show ?case
    by simp
qed simp_all

lemma path_found:
  assumes wf: "wf_board b" and cons: "consistent b" and s: "on_board b S"
    and r: "getAllAccessibleSquaresForBoard S S b = Some r"
    and v: "set (visitedPieces r) = keyXY ` linked b S"
    and D: "\<exists>p \<in> linked b S. D \<in> set (getAvailableSquares p) \<and> (p \<noteq> S \<or> piece_at b D \<noteq> None)"
  shows "\<exists>path. findMovementPathForBoard S D b = Some (Some path) \<and> path \<noteq> [] \<and>
     hd path = keyXY S \<and> last path = D \<and> chain_ok b (rev path) \<and>
     (piece_at b D = None \<longrightarrow> 3 \<le> length path \<and> rev path ! 1 \<noteq> keyXY S)"
proof -
  let ?every = "fold (collect_piece b S) (visitedPieces r) []"
  let ?first = "if cell b (fst D) (snd D) = None then removeAll S ?every else ?every"
  have every: "set ?every = linked b S"
    using cons s v by (rule accessiblePieces_linked)
  have first: "set ?first = (if piece_at b D = None then linked b S - {S} else linked b S)"
    by (simp add: every piece_at_def)
  then have FE: "set ?first \<subseteq> set ?every"
    unfolding every by auto
  have "reaches D (keyXY S) ?first ?every"
    using cons s every first D by (rule reaches_selected)
  with bfs_loop_finds [OF bfs_inv_start FE]
  obtain p0 where b: "bfs_loop (keyXY S) ?first ?every [(D, [D])] [D] = Some (rev p0)"
    and g: "good_path D (set ?first) (set ?every) (keyXY S) p0"
    by blast
  from g have ne: "p0 \<noteq> []" and hd: "hd p0 = D" and last: "last p0 = keyXY S"
    and h: "hops (linked b S) p0" and one: "length p0 = 1 \<longleftrightarrow> keyXY S = D"
    and hop1: "2 \<le> length p0 \<longrightarrow>
       (\<exists>p \<in> set ?first. keyXY p = p0 ! 1 \<and> D \<in> set (getAvailableSquares p))"
    unfolding every by (simp_all add: good_path_def)
  have f: "findMovementPathForBoard S D b = Some (Some (rev p0))"
    using b by (simp add: findMovementPathForBoard_def r Let_def)
  have c: "chain_ok b p0"
    using cons s h by (rule hops_chain_ok)
  have e: "3 \<le> length p0 \<and> p0 ! 1 \<noteq> keyXY S" if empty: "piece_at b D = None"
  proof -
    from s empty have "keyXY S \<noteq> D"
      by (auto simp: on_board_def)
    with one ne have two: "2 \<le> length p0"
      by (cases p0) (auto simp: Suc_le_eq)
    with hop1 obtain p where p: "p \<in> set ?first" "keyXY p = p0 ! 1"
      by blast
    from p(1) empty have "p \<in> linked b S" "p \<noteq> S"
      unfolding first by auto
    with linked_on_board [OF cons s] s have "keyXY p \<noteq> keyXY S"
      by (auto dest: on_board_inj)
    with p(2) have n: "p0 ! 1 \<noteq> keyXY S"
      by simp
    have "length p0 \<noteq> 2"
    proof
      assume "length p0 = 2"
      then have "last p0 = p0 ! 1"
        by (simp add: last_conv_nth ne)
      with last n show False
        by simp
    qed
    with two n show ?thesis
      by simp
  qed
  from f ne hd last c e show ?thesis
    by (auto simp: hd_rev last_rev)
qed

section \<open>Lemmas about moves, promotion and the change of turn\<close>

subsection \<open>The grid\<close>

lemma cell_put:
  "cell (put b x y v) x' y' =
     (if x' = x \<and> y' = y \<and> 0 \<le> y \<and> nat y < length b \<and> 0 \<le> x \<and> nat x < length (b ! nat y)
      then v else cell b x' y')"
proof (cases "0 \<le> y \<and> nat y < length b \<and> 0 \<le> x \<and> nat x < length (b ! nat y)")
  case False
  then show ?thesis
    by (auto simp: put_def)
next
  case True
  then have p: "put b x y v = b[nat y := (b ! nat y)[nat x := v]]"
    by (simp add: put_def)
  show ?thesis
  proof (cases "0 \<le> y' \<and> nat y' < length b \<and> 0 \<le> x'")
    case False
    then show ?thesis
      unfolding p cell_def using True by auto
  next
    case r: True
    have ny: "nat y' = nat y \<longleftrightarrow> y' = y" and nx: "nat x' = nat x \<longleftrightarrow> x' = x"
      using True r by auto
    show ?thesis
      unfolding p cell_def using True r
      by (auto simp: nth_list_update ny nx)
  qed
qed

lemma cell_outside:
  "\<not> (0 \<le> y \<and> nat y < length b \<and> 0 \<le> x \<and> nat x < length (b ! nat y)) \<Longrightarrow> cell b x y = None"
  by (auto simp: cell_def)

lemma cell_put_None: "cell (put b x y None) x' y' = (if x' = x \<and> y' = y then None else cell b x' y')"
  using cell_outside [of y b x] by (auto simp: cell_put)

lemma cell_map: "cell (map (map (map_option f)) b) x y = map_option f (cell b x y)"
  by (auto simp: cell_def)

lemma promote_loop_pieces:
  "i \<le> length (pieces g) \<Longrightarrow>
     pieces (promote_loop i g) = filter (\<lambda>p. \<not> promotes p) (take i (pieces g)) @ drop i (pieces g)"
proof (induction i arbitrary: g)
  case 0
  show ?case by simp
next
  case (Suc i)
  let ?ps = "pieces g"
  from Suc.prems have i: "i < length ?ps"
    by simp
  then have t: "take (Suc i) ?ps = take i ?ps @ [?ps ! i]"
    by (simp add: take_Suc_conv_app_nth)
  have d: "drop i ?ps = ?ps ! i # drop (Suc i) ?ps"
    using i by (simp add: Cons_nth_drop_Suc)
  show ?case
  proof (cases "promotes (?ps ! i)")
    case True
    let ?g1 = "g\<lparr>grid := put (grid g) (px (?ps ! i)) (py (?ps ! i)) None,
             pieces := take i ?ps @ drop (Suc i) ?ps,
             playerScores := (playerScores g)(player (?ps ! i) := playerScores g (player (?ps ! i)) + 1)\<rparr>"
    have "i \<le> length (pieces ?g1)"
      using i by simp
    from Suc.IH [OF this] True i show ?thesis
      by (simp add: Let_def t)
  next
    case False
    from Suc.IH [of g] i False show ?thesis
      by (simp add: Let_def t d)
  qed
qed


lemma promote_loop_grid:
  "i \<le> length (pieces g) \<Longrightarrow>
     cell (grid (promote_loop i g)) x y =
       (if \<exists>p \<in> set (take i (pieces g)). promotes p \<and> px p = x \<and> py p = y then None
        else cell (grid g) x y)"
proof (induction i arbitrary: g)
  case 0
  show ?case by simp
next
  case (Suc i)
  let ?ps = "pieces g"
  from Suc.prems have i: "i < length ?ps"
    by simp
  then have t: "take (Suc i) ?ps = take i ?ps @ [?ps ! i]"
    by (simp add: take_Suc_conv_app_nth)
  show ?case
  proof (cases "promotes (?ps ! i)")
    case True
    let ?g1 = "g\<lparr>grid := put (grid g) (px (?ps ! i)) (py (?ps ! i)) None,
             pieces := take i ?ps @ drop (Suc i) ?ps,
             playerScores := (playerScores g)(player (?ps ! i) := playerScores g (player (?ps ! i)) + 1)\<rparr>"
    have "i \<le> length (pieces ?g1)"
      using i by simp
    from Suc.IH [OF this] True i show ?thesis
      by (auto simp: Let_def t cell_put_None)
  next
    case False
    from Suc.IH [of g] i False show ?thesis
      by (auto simp: Let_def t)
  qed
qed

lemma reset_flags_simps [simp]:
  "map pid (pieces (reset_flags g)) = map pid (pieces g)"
  "playerScores (reset_flags g) = playerScores g"
  "currentPlayer (reset_flags g) = currentPlayer g"
  "gameOver (reset_flags g) = gameOver g"
  by (simp_all add: reset_flags_def clear_flags_def)

lemma cell_reset_flags_None:
  "cell (grid g) x y = None \<Longrightarrow> cell (grid (reset_flags g)) x y = None"
  by (simp add: reset_flags_def cell_map)

lemma endTurn_simps [simp]:
  "map pid (pieces (endTurn g)) = map pid (pieces g)"
  "playerScores (endTurn g) = playerScores g"
  "currentPlayer (endTurn g) = (if currentPlayer g = 1 then 2 else 1)"
  "gameOver (endTurn g) = gameOver g"
  by (simp_all add: endTurn_def)

lemma cell_endTurn_None: "cell (grid g) x y = None \<Longrightarrow> cell (grid (endTurn g)) x y = None"
  by (simp add: endTurn_def cell_reset_flags_None)

lemma win_check_simps [simp]:
  "pieces (win_check g) = pieces g" "playerScores (win_check g) = playerScores g"
  "grid (win_check g) = grid g" "currentPlayer (win_check g) = currentPlayer g"
  by (simp_all add: win_check_def)



lemma update_after_animation_grid:
  assumes "p \<in> set (pieces g)" and "promotes p"
  shows "cell (grid (update_after_animation g)) (px p) (py p) = None"
proof -
  let ?g1 = "rebuildBoard g"
  have "cell (grid (promote_loop (length (pieces ?g1)) ?g1)) (px p) (py p) = None"
    using assms by (subst promote_loop_grid) (auto simp: rebuildBoard_def)
  then have "cell (grid (win_check (promote_loop (length (pieces ?g1)) ?g1))) (px p) (py p) = None"
    by simp
  then show ?thesis
    by (simp add: update_after_animation_def Let_def cell_endTurn_None)
qed

subsection \<open>The simulation of the bot\<close>



lemma assign_simps [simp]:
  "playerScores (assign i f g) = playerScores g"
  "currentPlayer (assign i f g) = currentPlayer g"
  "gameOver (assign i f g) = gameOver g"
  by (simp_all add: assign_def)


lemma assign_pieces: "pieces (assign i f g) = map (\<lambda>p. if pid p = i then f p else p) (pieces g)"
  by (simp add: assign_def)

lemma assign_cell:
  "cell (grid (assign i f g)) x y = map_option (\<lambda>p. if pid p = i then f p else p) (cell (grid g) x y)"
  by (simp add: assign_def cell_map)


lemma rotate_funpow [simp]:
  "pid ((rotate_once ^^ n) p) = pid p" "ptype ((rotate_once ^^ n) p) = ptype p"
  "player ((rotate_once ^^ n) p) = player p"
  by (induction n) (simp_all add: rotate_once_def)


lemma map_pid_update:
  assumes "\<And>p. pid (f p) = pid p"
  shows "map pid (map (\<lambda>p. if pid p = i then f p else p) xs) = map pid xs"
  using assms by (induction xs) simp_all




lemma end_turn_sim_simps [simp]:
  "map pid (pieces (end_turn_sim st)) = map pid (pieces st)"
  "playerScores (end_turn_sim st) = playerScores st"
  "currentPlayer (end_turn_sim st) = otherPlayer (currentPlayer st)"
  by (simp_all add: end_turn_sim_def Let_def)




subsection \<open>The live move\<close>

lemma bfs_loop_sound:
  "bfs_inv D goal first every queue vis \<Longrightarrow> set first \<subseteq> set every \<Longrightarrow>
    bfs_loop goal first every queue vis = Some r \<Longrightarrow>
    good_path D (set first) (set every) goal (rev r)"
proof (induction goal first every queue vis rule: bfs_loop.induct)
  case (1 goal first every vis)
  then show ?case
    by simp
next
  case (2 goal first every q path queue vis)
  show ?case
  proof (cases "q = goal")
    case True
    with "2.prems"(1) have "good_path D (set first) (set every) goal path"
      by (simp add: bfs_inv_def)
    with True "2.prems"(3) show ?thesis
      by auto
  next
    case False
    let ?st = "fold (expand q path) (if length path = 1 then first else every) (queue, vis)"
    have i: "bfs_inv D goal first every (fst ?st) (snd ?st)"
      using "2.prems"(1,2) False by (rule bfs_inv_step) (rule refl)
    from "2.prems"(3) False
    have "bfs_loop goal first every (fst ?st) (snd ?st) = Some r"
      by (simp add: Let_def)
    with "2.IH" [OF False refl refl i "2.prems"(2)] show ?thesis
      by simp
  qed
qed

lemma path_ends_at_destination:
  assumes "findMovementPathForBoard S D b = Some (Some path)"
  shows "path \<noteq> [] \<and> hd path = keyXY S \<and> last path = D"
proof -
  from assms obtain res where r: "getAllAccessibleSquaresForBoard S S b = Some res"
    by (auto simp: findMovementPathForBoard_def split: option.splits)
  let ?every = "fold (collect_piece b S) (visitedPieces res) []"
  let ?first = "if cell b (fst D) (snd D) = None then removeAll S ?every else ?every"
  from assms have b: "bfs_loop (keyXY S) ?first ?every [(D, [D])] [D] = Some path"
    by (simp add: findMovementPathForBoard_def r Let_def)
  have "set ?first \<subseteq> set ?every"
    by auto
  with bfs_inv_start have "good_path D (set ?first) (set ?every) (keyXY S) (rev path)"
    using b by (rule bfs_loop_sound)
  then show ?thesis
    by (auto simp: good_path_def hd_rev last_rev)
qed

lemma relocate_pids [simp]: "map pid (relocate i q ps) = map pid ps"
  unfolding relocate_def by (rule map_pid_update) simp



lemma animation_done_simps [simp]:
  "map pid (pieces (animation_done g s path t)) = map pid (pieces g)"
  "playerScores (animation_done g s path t) = playerScores g"
  "currentPlayer (animation_done g s path t) = currentPlayer g"
  by (simp_all add: animation_done_def Let_def split: option.splits)


lemma moveOrSwap_Some:
  assumes "moveOrSwap g h s sq = Some g'"
  shows "\<exists>path. findMovementPathForBoard s sq (grid g) = Some (Some path) \<and> last path = sq \<and>
     g' = update_after_animation (animation_done g s path (cell (grid g) (fst sq) (snd sq))) \<and>
     \<not> gameOver g \<and> currentPlayer g \<noteq> BOT_PLAYER \<and> sq \<in> set h"
  using assms path_ends_at_destination [of s sq "grid g"]
  by (auto simp: moveOrSwap_def split: if_splits option.splits)


lemma promote_loop_keeps [simp]:
  "currentPlayer (promote_loop i g) = currentPlayer g"
  "gameOver (promote_loop i g) = gameOver g"
  by (induction i arbitrary: g) (simp_all add: Let_def)

lemma clear_flags_simps [simp]:
  "pid (clear_flags cp p) = pid p" "player (clear_flags cp p) = player p"
  "\<not> movedLastTurn (clear_flags cp p)"
  "player p = cp \<Longrightarrow> \<not> rotatedThisTurn (clear_flags cp p)"
  by (simp_all add: clear_flags_def)

lemma endTurn_pieces:
  "pieces (endTurn g) = map (clear_flags (currentPlayer (endTurn g))) (pieces g)"
  by (simp add: endTurn_def reset_flags_def)

lemma endTurn_cell:
  "cell (grid (endTurn g)) x y =
     map_option (\<lambda>p. if pid p \<in> set (map pid (pieces g)) then clear_flags (currentPlayer (endTurn g)) p else p)
       (cell (grid g) x y)"
  by (simp add: endTurn_def reset_flags_def cell_map cong: if_cong)

lemma endTurn_selectable:
  assumes "p \<in> set (pieces (endTurn g))"
  shows "\<not> movedLastTurn p \<and>
     (canBeSelected p (currentPlayer (endTurn g)) \<longleftrightarrow> player p = currentPlayer (endTurn g))"
proof -
  from assms obtain q where "p = clear_flags (currentPlayer (endTurn g)) q"
    unfolding endTurn_pieces by auto
  then show ?thesis
    by (auto simp: canBeSelected_def)
qed

lemma cell_makeEmptyBoard: "cell makeEmptyBoard x y = None"
  by (auto simp: cell_def makeEmptyBoard_def BOARD_WIDTH_def BOARD_HEIGHT_def)

lemma cell_fold_put:
  "cell (fold (\<lambda>p b. put b (px p) (py p) (Some p)) ps b) x y = Some p \<Longrightarrow>
     p \<in> set ps \<and> px p = x \<and> py p = y \<or> cell b x y = Some p"
proof (induction ps arbitrary: b)
  case Nil
  then show ?case
    by simp
next
  case (Cons q ps)
  from Cons.IH [of "put b (px q) (py q) (Some q)"] Cons.prems
  have "p \<in> set ps \<and> px p = x \<and> py p = y \<or> cell (put b (px q) (py q) (Some q)) x y = Some p"
    by simp
  then show ?case
    by (auto simp: cell_put split: if_splits)
qed

lemma cell_place: "cell (place ps) x y = Some p \<Longrightarrow> p \<in> set ps \<and> px p = x \<and> py p = y"
  unfolding place_def using cell_fold_put [of ps makeEmptyBoard x y p]
  by (simp add: cell_makeEmptyBoard)

lemma relocate_player:
  "p \<in> set (relocate i q ps) \<Longrightarrow> \<exists>r \<in> set ps. pid r = pid p \<and> player r = player p"
  unfolding relocate_def by (auto split: if_splits)

lemma animation_done_player:
  assumes "p \<in> set (pieces (animation_done g s path t))"
  shows "\<exists>r \<in> set (pieces g). pid r = pid p \<and> player r = player p"
proof (cases t)
  case None
  with assms show ?thesis
    by (simp add: animation_done_def relocate_player)
next
  case (Some u)
  with assms have "p \<in> set (relocate (pid u) (keyXY s) (relocate (pid s) (last path) (pieces g)))"
    by (simp add: animation_done_def)
  from relocate_player [OF this] obtain r where
    r: "r \<in> set (relocate (pid s) (last path) (pieces g))" "pid r = pid p" "player r = player p"
    by blast
  from relocate_player [OF r(1)] r(2,3) show ?thesis
    by auto
qed

text \<open>
  The state in which \<^verbatim>\<open>update\<close> calls \<^verbatim>\<open>endTurn\<close>.
\<close>

lemma update_after_animation_endTurn:
  assumes "\<not> gameOver (update_after_animation g)"
  shows "\<exists>g3. update_after_animation g = endTurn g3 \<and> currentPlayer g3 = currentPlayer g \<and>
     (\<forall>p \<in> set (pieces g3). p \<in> set (pieces g)) \<and>
     (\<forall>x y p. cell (grid g3) x y = Some p \<longrightarrow> p \<in> set (pieces g3))"
proof -
  let ?g1 = "rebuildBoard g"
  let ?g2 = "promote_loop (length (pieces ?g1)) ?g1"
  let ?g3 = "win_check ?g2"
  have u: "update_after_animation g = (if \<not> gameOver ?g3 then endTurn ?g3 else ?g3)"
    by (simp add: update_after_animation_def Let_def)
  with assms have e: "update_after_animation g = endTurn ?g3"
    by (auto split: if_splits)
  have p3: "pieces ?g3 = filter (\<lambda>p. \<not> promotes p) (pieces g)"
    by (simp add: promote_loop_pieces rebuildBoard_def)
  have c3: "p \<in> set (pieces ?g3)" if c: "cell (grid ?g3) x y = Some p" for x y p
  proof -
    from c have n: "\<not> (\<exists>q \<in> set (pieces g). promotes q \<and> px q = x \<and> py q = y)"
      and "cell (place (pieces g)) x y = Some p"
      by (auto simp: promote_loop_grid rebuildBoard_def split: if_splits)
    from cell_place [OF this(2)] n show ?thesis
      unfolding p3 by auto
  qed
  have "currentPlayer ?g3 = currentPlayer g"
    by (simp add: rebuildBoard_def)
  with e p3 c3 show ?thesis
    by (intro exI [of _ ?g3]) auto
qed

subsection \<open>The grid after a move\<close>

lemma length_put [simp]: "length (put b x y v) = length b"
  by (simp add: put_def)

lemma length_put_row [simp]: "length (put b x y v ! j) = length (b ! j)"
  by (cases "j < length b") (auto simp: put_def nth_list_update)

lemma cell_put_inside:
  "cell b x y \<noteq> None \<Longrightarrow> cell (put b x y v) x' y' = (if x' = x \<and> y' = y then v else cell b x' y')"
  using cell_outside [of y b x] by (auto simp: cell_put)


lemma cell_put_pid_inside:
  "map_option pid (cell b x y) \<noteq> None \<Longrightarrow>
     cell (put b x y v) x' y' = (if x' = x \<and> y' = y then v else cell b x' y')"
  by (rule cell_put_inside) auto






lemma wf_board_put: "wf_board b \<Longrightarrow> wf_board (put b x y v)"
  by (simp add: wf_board_def list_all_length)

lemma wf_board_fold_put:
  "wf_board b \<Longrightarrow> wf_board (fold (\<lambda>p b. put b (px p) (py p) (Some p)) ps b)"
  by (induction ps arbitrary: b) (simp_all add: wf_board_put)







subsection \<open>The rotations of the bot\<close>

lemma map_field_update:
  assumes "\<And>p. F (f p) = F p"
  shows "map F (map (\<lambda>p. if c p then f p else p) xs) = map F xs"
  using assms by (induction xs) simp_all

lemma live_rotate_funpow:
  assumes "\<And>p. F (live_rotate p) = F p"
  shows "F ((live_rotate ^^ n) p) = F p"
  using assms by (induction n) simp_all

lemma bot_rotations_fields:
  assumes "\<And>p. F (live_rotate p) = F p"
  shows "map F (pieces (bot_rotations rs g)) = map F (pieces g) \<and>
     (\<forall>x y. map_option F (cell (grid (bot_rotations rs g)) x y) = map_option F (cell (grid g) x y))"
proof (induction rs arbitrary: g)
  case Nil
  show ?case
    by simp
next
  case (Cons r rs)
  show ?case
  proof (cases "List.find (\<lambda>pp. pid pp = rid r) (pieces g)")
    case None
    with Cons.IH [of g] show ?thesis
      by simp
  next
    case (Some p)
    let ?n = "nat (times r)"
    let ?g1 = "(assign (rid r) (live_rotate ^^ ?n) g)
        \<lparr>rotationChances := ((\<lambda>c. max 0 (c - 1)) ^^ ?n) (rotationChances g)\<rparr>"
    have f: "F ((live_rotate ^^ ?n) q) = F q" for q
      using assms by (rule live_rotate_funpow)
    have "pieces ?g1 = map (\<lambda>p. if pid p = rid r then (live_rotate ^^ ?n) p else p) (pieces g)"
      by (simp add: assign_pieces)
    then have p1: "map F (pieces ?g1) = map F (pieces g)"
      by (simp only: map_field_update [of F, OF f])
    have c1: "map_option F (cell (grid ?g1) x y) = map_option F (cell (grid g) x y)" for x y
      by (cases "cell (grid g) x y") (simp_all add: assign_cell f)
    from Cons.IH [of ?g1] p1 c1 Some show ?thesis
      by (simp add: Let_def)
  qed
qed

lemma bot_rotations_simps [simp]:
  "playerScores (bot_rotations rs g) = playerScores g"
  "currentPlayer (bot_rotations rs g) = currentPlayer g"
  "gameOver (bot_rotations rs g) = gameOver g"
  by (induction rs arbitrary: g) (simp_all add: Let_def split: option.splits)

lemma bot_rotated_simps [simp]:
  "playerScores (bot_rotated g a) = playerScores g"
  "currentPlayer (bot_rotated g a) = currentPlayer g"
  "gameOver (bot_rotated g a) = gameOver g"
  by (simp_all add: bot_rotated_def)

lemma bot_rotated_fields:
  assumes "\<And>p. F (live_rotate p) = F p"
  shows "map F (pieces (bot_rotated g a)) = map F (pieces g)"
    and "map_option F (cell (grid (bot_rotated g a)) x y) = map_option F (cell (grid g) x y)"
  using bot_rotations_fields [of F "rotations a" "g\<lparr>rotationChances := 2\<rparr>", OF assms]
  by (simp_all add: bot_rotated_def)

lemma live_rotate_simps [simp]:
  "pid (live_rotate p) = pid p" "player (live_rotate p) = player p" "ptype (live_rotate p) = ptype p"
  "px (live_rotate p) = px p" "py (live_rotate p) = py p"
  "movedLastTurn (live_rotate p) = movedLastTurn p"
  by (simp_all add: live_rotate_def)


lemma thinkAndMove_Some:
  assumes "thinkAndMove g best = Some g'"
  shows "\<exists>a r path. best = Some a \<and> currentPlayer g = BOT_PLAYER \<and>
     List.find (\<lambda>pp. pid pp = move_id a) (pieces (bot_rotated g a)) = Some r \<and>
     r \<in> set (pieces (bot_rotated g a)) \<and> pid r = move_id a \<and>
     findMovementPathForBoard r (move_dest a) (grid (bot_rotated g a)) = Some (Some path) \<and>
     last path = move_dest a \<and>
     g' = update_after_animation
            (animation_done (bot_rotated g a) r path
               (cell (grid (bot_rotated g a)) (fst (move_dest a)) (snd (move_dest a))))"
proof -
  from assms obtain a where a: "best = Some a" and cp: "currentPlayer g = BOT_PLAYER"
    by (cases best) (auto simp: thinkAndMove_def split: if_splits)
  let ?g1 = "bot_rotated g a"
  from assms a cp obtain r where r: "List.find (\<lambda>pp. pid pp = move_id a) (pieces ?g1) = Some r"
    by (cases "List.find (\<lambda>pp. pid pp = move_id a) (pieces ?g1)")
       (auto simp: thinkAndMove_def Let_def)
  then have rin: "r \<in> set (pieces ?g1)" "pid r = move_id a"
    by (auto simp: find_Some_iff)
  from assms a cp r obtain path where
    p: "findMovementPathForBoard r (move_dest a) (grid ?g1) = Some (Some path)"
    and g': "g' = update_after_animation
            (animation_done ?g1 r path (cell (grid ?g1) (fst (move_dest a)) (snd (move_dest a))))"
    by (auto simp: thinkAndMove_def Let_def split: option.splits)
  from path_ends_at_destination [OF p] a cp r rin p g' show ?thesis
    by blast
qed

subsection \<open>The end of a live move\<close>



lemma relocate_fields:
  assumes "\<And>p x y. F (p\<lparr>px := x, py := y\<rparr>) = F p"
  shows "map F (relocate i q ps) = map F ps"
  unfolding relocate_def by (rule map_field_update) (rule assms)

lemma animation_done_fields:
  assumes "\<And>p x y. F (p\<lparr>px := x, py := y\<rparr>) = F p"
  shows "map F (pieces (animation_done g s path t)) = map F (pieces g)"
  by (cases t) (simp_all add: animation_done_def relocate_fields [of F, OF assms])

lemma update_after_animation_cases:
  "\<exists>g3. (\<forall>p \<in> set (pieces g3). p \<in> set (pieces g)) \<and> currentPlayer g3 = currentPlayer g \<and>
     (\<forall>x y p. cell (grid g3) x y = Some p \<longrightarrow> p \<in> set (pieces g3)) \<and>
     update_after_animation g = (if gameOver g3 then g3 else endTurn g3)"
proof -
  let ?g1 = "rebuildBoard g"
  let ?g2 = "promote_loop (length (pieces ?g1)) ?g1"
  let ?g3 = "win_check ?g2"
  have u: "update_after_animation g = (if gameOver ?g3 then ?g3 else endTurn ?g3)"
    by (simp add: update_after_animation_def Let_def)
  have p3: "pieces ?g3 = filter (\<lambda>p. \<not> promotes p) (pieces g)"
    by (simp add: promote_loop_pieces rebuildBoard_def)
  have c3: "p \<in> set (pieces ?g3)" if c: "cell (grid ?g3) x y = Some p" for x y p
  proof -
    from c have n: "\<not> (\<exists>q \<in> set (pieces g). promotes q \<and> px q = x \<and> py q = y)"
      and "cell (place (pieces g)) x y = Some p"
      by (auto simp: promote_loop_grid rebuildBoard_def split: if_splits)
    from cell_place [OF this(2)] n show ?thesis
      unfolding p3 by auto
  qed
  have "currentPlayer ?g3 = currentPlayer g"
    by (simp add: rebuildBoard_def)
  with u p3 c3 show ?thesis
    by (intro exI [of _ ?g3]) auto
qed

lemma live_move_frame:
  assumes "(g1 = g \<and> r = sel \<and> dest = sq \<and> moveOrSwap g h sel sq = Some g') \<or>
     (g1 = bot_rotated g a \<and> List.find (\<lambda>pp. pid pp = move_id a) (pieces g1) = Some r \<and>
        dest = move_dest a \<and> thinkAndMove g (Some a) = Some g')"
  shows "(\<exists>path. findMovementPathForBoard r dest (grid g1) = Some (Some path) \<and>
        g' = update_after_animation (animation_done g1 r path (cell (grid g1) (fst dest) (snd dest)))) \<and>
     currentPlayer g1 = currentPlayer g \<and>
     map pid (pieces g1) = map pid (pieces g) \<and> map player (pieces g1) = map player (pieces g) \<and>
     map movedLastTurn (pieces g1) = map movedLastTurn (pieces g)"
  using assms
proof (elim disjE conjE)
  assume e: "g1 = g" "r = sel" "dest = sq" and mv: "moveOrSwap g h sel sq = Some g'"
  from moveOrSwap_Some [OF mv] e show ?thesis
    by auto
next
  assume e: "g1 = bot_rotated g a" "dest = move_dest a"
    and f: "List.find (\<lambda>pp. pid pp = move_id a) (pieces g1) = Some r"
    and mv: "thinkAndMove g (Some a) = Some g'"
  have "map pid (pieces g1) = map pid (pieces g)" "map player (pieces g1) = map player (pieces g)"
    "map movedLastTurn (pieces g1) = map movedLastTurn (pieces g)"
    unfolding e(1) by (rule bot_rotated_fields, simp)+
  moreover have "currentPlayer g1 = currentPlayer g"
    unfolding e(1) by simp
  moreover from thinkAndMove_Some [OF mv] e f
  have "\<exists>path. findMovementPathForBoard r dest (grid g1) = Some (Some path) \<and>
        g' = update_after_animation (animation_done g1 r path (cell (grid g1) (fst dest) (snd dest)))"
    by auto
  ultimately show ?thesis
    by simp
qed

lemma corresponding:
  assumes "map pid xs = map pid ys" and "map player xs = map player ys"
    and "map movedLastTurn xs = map movedLastTurn ys" and "p \<in> set xs"
  shows "\<exists>q \<in> set ys. pid q = pid p \<and> player q = player p \<and> movedLastTurn q = movedLastTurn p"
proof -
  from assms(4) obtain k where k: "k < length xs" "xs ! k = p"
    by (auto simp: in_set_conv_nth)
  from assms(1) have l: "length xs = length ys"
    by (rule map_eq_imp_length_eq)
  have "pid (ys ! k) = map pid ys ! k" "player (ys ! k) = map player ys ! k"
    "movedLastTurn (ys ! k) = map movedLastTurn ys ! k"
    using k l by simp_all
  moreover have "pid p = map pid xs ! k" "player p = map player xs ! k"
    "movedLastTurn p = map movedLastTurn xs ! k"
    using k by auto
  ultimately have "pid (ys ! k) = pid p \<and> player (ys ! k) = player p \<and>
      movedLastTurn (ys ! k) = movedLastTurn p"
    using assms(1-3) by simp
  moreover have "ys ! k \<in> set ys"
    using k l by simp
  ultimately show ?thesis
    by blast
qed

lemma live_move_update:
  assumes "moveOrSwap g h sel sq = Some g' \<or> thinkAndMove g (Some a) = Some g'"
  shows "\<exists>ga. g' = update_after_animation ga \<and> currentPlayer ga = currentPlayer g"
  using assms
proof
  assume "moveOrSwap g h sel sq = Some g'"
  from moveOrSwap_Some [OF this] obtain path where
    "g' = update_after_animation (animation_done g sel path (cell (grid g) (fst sq) (snd sq)))"
    by blast
  then show ?thesis
    by (intro exI [of _ "animation_done g sel path (cell (grid g) (fst sq) (snd sq))"]) simp
next
  assume "thinkAndMove g (Some a) = Some g'"
  from thinkAndMove_Some [OF this] obtain r path where
    "g' = update_after_animation (animation_done (bot_rotated g a) r path
       (cell (grid (bot_rotated g a)) (fst (move_dest a)) (snd (move_dest a))))"
    by blast
  then show ?thesis
    by (intro exI [of _ "animation_done (bot_rotated g a) r path
       (cell (grid (bot_rotated g a)) (fst (move_dest a)) (snd (move_dest a)))"]) simp
qed

lemma other_player: "(if c = (1 :: int) then 2 else 1) \<noteq> c"
  by simp

section \<open>Candidate offsets and the rotation transform\<close>

text \<open>
  Claim C8. For every integer offset and every rotation \<open>r\<close> among 0, 90, 180 and 270,
  \<^verbatim>\<open>rotateDir\<close> by \<open>r\<close> followed by \<^verbatim>\<open>rotateDir\<close> by \<^verbatim>\<open>(360 - r) % 360\<close> gives the
  offset back, and the result of a single application is the integer lookup: identity,
  \<open>(dx, dy) \<mapsto> (- dy, dx)\<close>, negation of both, \<open>(dx, dy) \<mapsto> (dy, - dx)\<close>.
\<close>

theorem rotateDir_inverse:
  assumes "r \<in> {0, 90, 180, 270}"
  shows "rotateDir (fst (rotateDir dx dy r)) (snd (rotateDir dx dy r)) (js_rem (360 - r) 360) = (dx, dy)
    \<and> rotateDir dx dy r =
        (if r = 0 then (dx, dy) else if r = 90 then (- dy, dx)
         else if r = 180 then (- dx, - dy) else (dy, - dx))"
proof -
  have j: "js_rem (360 - r) 360 = (360 - r) mod 360"
    using assms by (intro js_rem_nonneg) auto
  from assms consider "r = 0" | "r = 90" | "r = 180" | "r = 270"
    by auto
  then show ?thesis
    by cases (simp_all add: rotateDir_quarter js_rem_nonneg)
qed

theorem rotateDir_inverse_witness:
  "(90::int) \<in> {0, 90, 180, 270}
   \<and> rotateDir (fst (rotateDir 2 (- 1) 90)) (snd (rotateDir 2 (- 1) 90)) (js_rem (360 - 90) 360) = (2, - 1)
   \<and> rotateDir 2 (- 1) 90 = (1, 2)"
  using rotateDir_inverse [of 90 2 "- 1"] by (simp add: rotateDir_quarter js_rem_def)

text \<open>
  Claim C10. Let a player-1 piece and a player-2 piece have the same base type, that is
  the same type once the suffix \<^verbatim>\<open>e\<close> of the player-2 variant is dropped, and the same
  rotation, a multiple of 90. Then the rotated offsets of the player-2 piece, before the
  bounds filter, are the pointwise negations of those of the player-1 piece. In
  particular the unrotated direction lists of the two players are negations of each
  other, and negation commutes with the rotation.
\<close>

theorem players_point_reflection:
  assumes "strip_e (ptype p2) = strip_e (ptype p1)" and "rotation p2 = rotation p1"
    and "90 dvd rotation p1" and "player p1 = 1" and "player p2 = 2"
  shows "adjusted p2 = map (\<lambda>d. (- fst d, - snd d)) (adjusted p1) \<and>
     dirs (ptype p2) 2 = map (\<lambda>d. (- fst d, - snd d)) (dirs (ptype p1) 1) \<and>
     (\<forall>dx dy. rotateDir (- dx) (- dy) ((- rotation p1) mod 360) =
        (- fst (rotateDir dx dy ((- rotation p1) mod 360)),
         - snd (rotateDir dx dy ((- rotation p1) mod 360))))"
proof -
  have a: "90 dvd (- rotation p1) mod 360"
    using assms(3) by (simp add: dvd_mod_iff)
  have d: "dirs (ptype p2) 2 = map (\<lambda>d. (- fst d, - snd d)) (dirs (ptype p1) 1)"
    using dirs_neg [of 2 "ptype p2"] dirs_base_type [OF assms(1), of 1] by simp
  have "adjusted p2 = map (\<lambda>d. (- fst d, - snd d)) (adjusted p1)"
    by (simp add: adjusted_eq assms(2,4,5) d rotateDir_neg [OF a] comp_def)
  with d rotateDir_neg [OF a] show ?thesis
    by blast
qed

theorem players_point_reflection_witness:
  "strip_e (ptype dt_rot_e) = strip_e (ptype dt_rot) \<and> rotation dt_rot_e = rotation dt_rot \<and>
   90 dvd rotation dt_rot \<and> player dt_rot = 1 \<and> player dt_rot_e = 2 \<and>
   ptype dt_rot = ''DT'' \<and> ptype dt_rot_e = ''DTe'' \<and>
   adjusted dt_rot = [(1, 0), (1, - 1), (1, 1), (- 1, 0)] \<and>
   adjusted dt_rot_e = [(- 1, 0), (- 1, 1), (- 1, - 1), (1, 0)]"
proof -
  have h: "strip_e (ptype dt_rot_e) = strip_e (ptype dt_rot)" "rotation dt_rot_e = rotation dt_rot"
    "90 dvd rotation dt_rot" "player dt_rot = 1" "player dt_rot_e = 2"
    "ptype dt_rot = ''DT''" "ptype dt_rot_e = ''DTe''"
    by (simp_all add: dt_rot_def dt_rot_e_def strip_e_def)
  have e: "adjusted dt_rot = [(1, 0), (1, - 1), (1, 1), (- 1, 0)]"
    by (simp add: dt_rot_def adjusted_eq rotateDir_quarter dirs_def strip_e_def Let_def
        up_def down_def left_def right_def)
  from players_point_reflection [OF h(1-5)]
  have "adjusted dt_rot_e = map (\<lambda>d. (- fst d, - snd d)) (adjusted dt_rot)"
    by (rule conjunct1)
  with h e show ?thesis
    by simp
qed

text \<open>
  Claim C6, as amended. For a piece of type \<^verbatim>\<open>PR\<close> (or \<^verbatim>\<open>PRe\<close>) with rotation 0 the
  offsets of \<^verbatim>\<open>game.js\<close> are left and right+backward: \<open>(- 1, 0)\<close> and \<open>(1, 1)\<close> for
  player 1, their negations for the other player. The offsets of \<^verbatim>\<open>main.js\<close> are left
  and right+forward: \<open>(- 1, 0)\<close> and \<open>(1, - 1)\<close> for player 1, their negations for the
  other player.
\<close>

theorem PR_offsets:
  assumes "ptype p = ''PR'' \<or> ptype p = ''PRe''" and "rotation p = 0"
  shows "adjusted p = [left (player p),
            (fst (right (player p)) + fst (down (player p)), snd (right (player p)) + snd (down (player p)))]
    \<and> adjusted p = (if player p = 1 then [(- 1, 0), (1, 1)] else [(1, 0), (- 1, - 1)])
    \<and> adjusted_main p = [left (player p),
            (fst (right (player p)) + fst (up (player p)), snd (right (player p)) + snd (up (player p)))]
    \<and> adjusted_main p = (if player p = 1 then [(- 1, 0), (1, - 1)] else [(1, 0), (- 1, 1)])"
proof -
  from assms(1) have s: "strip_e (ptype p) = ''PR''" and d: "drop_first_e (ptype p) = ''PR''"
    by (auto simp: strip_e_def)
  have a: "adjusted p = dirs (ptype p) (player p)"
    using assms(2) by (rule adjusted_unrotated)
  have m: "adjusted_main p = dirs_main (ptype p) (player p)"
    using assms(2) by (rule adjusted_main_unrotated)
  show ?thesis
    unfolding a m dirs_PR [OF s] dirs_main_PR [OF d] by (simp add: frame_values)
qed

theorem PR_offsets_witness:
  "(ptype pr1 = ''PR'' \<or> ptype pr1 = ''PRe'') \<and> rotation pr1 = 0
   \<and> adjusted pr1 = [(- 1, 0), (1, 1)] \<and> adjusted_main pr1 = [(- 1, 0), (1, - 1)]"
  using PR_offsets [of pr1] by (simp add: pr1_def frame_values)

text \<open>
  The claim as stated, with right+backward \<open>(1, 1)\<close> for both files, fails on the
  starting piece \<^verbatim>\<open>new Piece(0, 6, "PR", 1)\<close> of \<^verbatim>\<open>main.js\<close>.
\<close>

theorem PR_offsets_main_counterexample:
  "adjusted_main pr1 = [(- 1, 0), (1, - 1)] \<and> adjusted_main pr1 \<noteq> [(- 1, 0), (1, 1)]
   \<and> (1, 1) = (fst (right 1) + fst (down 1), snd (right 1) + snd (down 1))"
  by (simp add: pr1_def adjusted_main_unrotated dirs_main_PR frame_values)

section \<open>Claims about the resolver\<close>

text \<open>
  Claim C2. On a well-formed, consistent board with the selected piece \<open>S\<close> standing on it,
  the resolver returns, and an empty square \<open>Z\<close> is in its accessible set exactly when
  \<open>Z\<close> is a candidate square of a linked piece other than \<open>S\<close>. In particular, when a
  friendly piece \<open>B\<close> stands on a candidate square of \<open>S\<close> and \<open>Z\<close> is an empty candidate
  square of \<open>B\<close>, then \<open>Z\<close> is accessible, whether or not it is a candidate square of \<open>S\<close>.
\<close>

theorem chain_rule_empty_squares:
  assumes "wf_board b" and "consistent b" and "on_board b S"
  shows "\<exists>r. getAllAccessibleSquaresForBoard S S b = Some r \<and>
     (\<forall>Z. piece_at b Z = None \<longrightarrow>
        (Z \<in> set (accessibleSquares r) \<longleftrightarrow>
           (\<exists>T \<in> linked b S. T \<noteq> S \<and> Z \<in> set (getAvailableSquares T)))) \<and>
     (\<forall>B Z. B \<in> friends b S \<and> B \<noteq> S \<and> Z \<in> set (getAvailableSquares B) \<and> piece_at b Z = None
        \<longrightarrow> Z \<in> set (accessibleSquares r))"
proof -
  from resolver_returns_id [OF assms]
  obtain r where r: "getAllAccessibleSquaresForBoard S S b = Some r"
    and a: "set (accessibleSquares r) =
       {q. \<exists>p \<in> linked b S. q \<in> set (getAvailableSquares p) \<and> (p \<noteq> S \<or> piece_at b q \<noteq> None)}"
    by blast
  have 1: "\<forall>Z. piece_at b Z = None \<longrightarrow>
        (Z \<in> set (accessibleSquares r) \<longleftrightarrow>
           (\<exists>T \<in> linked b S. T \<noteq> S \<and> Z \<in> set (getAvailableSquares T)))"
    unfolding a by auto
  have "B \<in> linked b S" if "B \<in> friends b S" for B
    using that by (auto simp: friends_def intro: friend_linked linked.origin)
  then have 2: "\<forall>B Z. B \<in> friends b S \<and> B \<noteq> S \<and> Z \<in> set (getAvailableSquares B) \<and> piece_at b Z = None
        \<longrightarrow> Z \<in> set (accessibleSquares r)"
    unfolding a by auto
  from r 1 2 show ?thesis
    by blast
qed

theorem chain_rule_empty_squares_witness:
  "wf_board board_chain \<and> consistent board_chain \<and> on_board board_chain chainA \<and>
   chainB \<in> friends board_chain chainA \<and> chainB \<noteq> chainA \<and>
   (2, 6) \<in> set (getAvailableSquares chainB) \<and> piece_at board_chain (2, 6) = None \<and>
   (2, 6) \<notin> set (getAvailableSquares chainA) \<and>
   getAllAccessibleSquaresForBoard chainA chainA board_chain =
     Some \<lparr>accessibleSquares = [(3, 6), (3, 5), (2, 6), (4, 7)], visitedPositions = [(2, 6), (4, 7)],
           visitedPieces = [(3, 7), (3, 6)]\<rparr> \<and>
   (\<exists>T \<in> linked board_chain chainA. T \<noteq> chainA \<and> (2, 6) \<in> set (getAvailableSquares T))"
proof -
  note ok = board_chain_ok
  have e: "piece_at board_chain (2, 6) = None" "(2, 6) \<in> set (getAvailableSquares chainB)"
    "(2, 6) \<notin> set (getAvailableSquares chainA)" "chainB \<noteq> chainA"
    by code_simp+
  have "(3, 6) \<in> set (getAvailableSquares chainA)" "piece_at board_chain (3, 6) = Some chainB"
    "player chainB = player chainA"
    by code_simp+
  then have f: "chainB \<in> friends board_chain chainA"
    unfolding friends_def occupants_def by blast
  from chain_rule_empty_squares [of board_chain chainA] ok board_chain_resolved e(1)
  have "(2, 6) \<in> set [(3, 6), (3, 5), (2, 6), (4, 7)] \<longleftrightarrow>
     (\<exists>T \<in> linked board_chain chainA. T \<noteq> chainA \<and> (2, 6) \<in> set (getAvailableSquares T))"
    by auto
  then have "\<exists>T \<in> linked board_chain chainA. T \<noteq> chainA \<and> (2, 6) \<in> set (getAvailableSquares T)"
    by simp
  with ok e f board_chain_resolved show ?thesis
    by blast
qed

text \<open>
  Claim C4. For two runs of the resolver on the same board and selected piece that
  process the pieces found on the candidate squares in any two orders (each a
  rearrangement of \<^verbatim>\<open>piecesOnAvailable\<close>), both runs return, with the same set of
  accessible squares, the same set of visited pieces and the same number of them.
\<close>

theorem resolver_order_independent:
  assumes "wf_board b" and "consistent b" and "on_board b S"
    and "\<forall>xs. mset (ord1 xs) = mset xs" and "\<forall>xs. mset (ord2 xs) = mset xs"
  shows "\<exists>r1 r2. getAllAccessibleSquaresForBoard_ord ord1 S S b = Some r1 \<and>
     getAllAccessibleSquaresForBoard_ord ord2 S S b = Some r2 \<and>
     set (accessibleSquares r1) = set (accessibleSquares r2) \<and>
     set (visitedPieces r1) = set (visitedPieces r2) \<and>
     length (visitedPieces r1) = length (visitedPieces r2)"
proof -
  from resolver_returns [OF assms(1-3) perm_ord_set [OF assms(4)]]
  obtain r1 where r1: "getAllAccessibleSquaresForBoard_ord ord1 S S b = Some r1"
    and d1: "distinct (visitedPieces r1)" and v1: "set (visitedPieces r1) = keyXY ` linked b S"
    and a1: "set (accessibleSquares r1) =
       {q. \<exists>p \<in> linked b S. q \<in> set (getAvailableSquares p) \<and> (p \<noteq> S \<or> piece_at b q \<noteq> None)}"
    by blast
  from resolver_returns [OF assms(1-3) perm_ord_set [OF assms(5)]]
  obtain r2 where r2: "getAllAccessibleSquaresForBoard_ord ord2 S S b = Some r2"
    and d2: "distinct (visitedPieces r2)" and v2: "set (visitedPieces r2) = keyXY ` linked b S"
    and a2: "set (accessibleSquares r2) =
       {q. \<exists>p \<in> linked b S. q \<in> set (getAvailableSquares p) \<and> (p \<noteq> S \<or> piece_at b q \<noteq> None)}"
    by blast
  from d1 d2 v1 v2 have "length (visitedPieces r1) = length (visitedPieces r2)"
    by (metis distinct_card)
  with r1 r2 a1 a2 v1 v2 show ?thesis
    by auto
qed

theorem resolver_order_independent_witness:
  "wf_board board_fork \<and> consistent board_fork \<and> on_board board_fork chainA \<and>
   (\<forall>xs :: piece list. mset (xs) = mset xs) \<and> (\<forall>xs :: piece list. mset (rev xs) = mset xs) \<and>
   visitedPieces (the (getAllAccessibleSquaresForBoard_ord (\<lambda>ts. ts) chainA chainA board_fork))
     = [(3, 7), (3, 6), (4, 7)] \<and>
   visitedPieces (the (getAllAccessibleSquaresForBoard_ord rev chainA chainA board_fork))
     = [(3, 7), (4, 7), (3, 6)] \<and>
   set (accessibleSquares (the (getAllAccessibleSquaresForBoard_ord (\<lambda>ts. ts) chainA chainA board_fork)))
     = set (accessibleSquares (the (getAllAccessibleSquaresForBoard_ord rev chainA chainA board_fork))) \<and>
   length (visitedPieces (the (getAllAccessibleSquaresForBoard_ord (\<lambda>ts. ts) chainA chainA board_fork)))
     = length (visitedPieces (the (getAllAccessibleSquaresForBoard_ord rev chainA chainA board_fork)))"
proof -
  note ok = board_fork_ok
  have v: "visitedPieces (the (getAllAccessibleSquaresForBoard_ord (\<lambda>ts. ts) chainA chainA board_fork))
     = [(3, 7), (3, 6), (4, 7)]"
    "visitedPieces (the (getAllAccessibleSquaresForBoard_ord rev chainA chainA board_fork))
     = [(3, 7), (4, 7), (3, 6)]"
    by code_simp+
  from resolver_order_independent [of board_fork chainA "\<lambda>ts. ts" rev] ok
  have "set (accessibleSquares (the (getAllAccessibleSquaresForBoard_ord (\<lambda>ts. ts) chainA chainA board_fork)))
     = set (accessibleSquares (the (getAllAccessibleSquaresForBoard_ord rev chainA chainA board_fork))) \<and>
   length (visitedPieces (the (getAllAccessibleSquaresForBoard_ord (\<lambda>ts. ts) chainA chainA board_fork)))
     = length (visitedPieces (the (getAllAccessibleSquaresForBoard_ord rev chainA chainA board_fork)))"
    by auto
  with ok v show ?thesis
    by simp
qed

text \<open>
  Claim C5. The resolver terminates: the nesting depth \<open>resolver_depth\<close> and every
  larger one give the same result, never \<open>None\<close>. No position occurs twice among the
  visited pieces, their number is at most the number of pieces on the board, and a target
  whose position is already visited is passed over without a recursive call: the step
  leaves both visited sets as they are, whatever the recursive call would do. The bound
  of 28 pieces is not needed.
\<close>

theorem resolver_terminates:
  assumes "wf_board b" and "consistent b" and "on_board b S"
  shows "\<exists>r. getAllAccessibleSquaresForBoard S S b = Some r \<and>
     (\<forall>n \<ge> resolver_depth. resolve n (\<lambda>ts. ts) b S S [] [] = Some r) \<and>
     distinct (visitedPieces r) \<and>
     length (visitedPieces r) \<le> length (board_pieces b) \<and>
     (\<forall>rec P t acc vpos vpcs. keyXY t \<in> set vpcs \<longrightarrow>
        link_step rec P S t (Some (acc, vpos, vpcs)) =
          Some (if player t \<noteq> player P then set_add (keyXY t) acc else acc, vpos, vpcs))"
proof -
  from resolver_returns_id [OF assms]
  obtain r where r: "getAllAccessibleSquaresForBoard S S b = Some r"
    and f: "\<forall>n \<ge> resolver_depth. resolve n (\<lambda>ts. ts) b S S [] [] = Some r"
    and d: "distinct (visitedPieces r)" and v: "set (visitedPieces r) = keyXY ` linked b S"
    by blast
  have "linked b S \<subseteq> set (board_pieces b)"
    using linked_on_board [OF assms(2,3)] on_board_in_pieces by blast
  then have "card (keyXY ` linked b S) \<le> card (set (board_pieces b))"
    by (meson card_image_le card_mono finite_subset List.finite_set le_trans)
  also have "\<dots> \<le> length (board_pieces b)"
    by (rule card_length)
  finally have "length (visitedPieces r) \<le> length (board_pieces b)"
    using d v by (metis distinct_card)
  with r f d show ?thesis
    by (auto simp: link_step_visited)
qed

theorem resolver_terminates_witness:
  "wf_board board_chain \<and> consistent board_chain \<and> on_board board_chain chainA \<and>
   length (board_pieces board_chain) = 3 \<and>
   resolve 100 (\<lambda>ts. ts) board_chain chainA chainA [] [] =
     getAllAccessibleSquaresForBoard chainA chainA board_chain \<and>
   getAllAccessibleSquaresForBoard chainA chainA board_chain =
     Some \<lparr>accessibleSquares = [(3, 6), (3, 5), (2, 6), (4, 7)], visitedPositions = [(2, 6), (4, 7)],
           visitedPieces = [(3, 7), (3, 6)]\<rparr> \<and>
   link_step (\<lambda>t vp vc. None) chainA chainA chainB (Some ([], [], [(3, 7), (3, 6)])) =
     Some ([], [], [(3, 7), (3, 6)])"
proof -
  note ok = board_chain_ok
  have n: "length (board_pieces board_chain) = 3" "keyXY chainB \<in> set [(3, 7), (3, 6)]"
    "player chainB = player chainA" "resolver_depth \<le> 100"
    by code_simp+
  from resolver_terminates [of board_chain chainA] ok n board_chain_resolved
  have "resolve 100 (\<lambda>ts. ts) board_chain chainA chainA [] [] =
     getAllAccessibleSquaresForBoard chainA chainA board_chain \<and>
   link_step (\<lambda>t vp vc. None) chainA chainA chainB (Some ([], [], [(3, 7), (3, 6)])) =
     Some ([], [], [(3, 7), (3, 6)])"
    by auto
  with ok n board_chain_resolved show ?thesis
    by simp
qed

text \<open>
  Claim C9. Every square returned by \<^verbatim>\<open>getAvailableSquares\<close>, for any piece, satisfies
  \<open>0 \<le> x < 7\<close> and \<open>0 \<le> y < 8\<close>, and so does every square of the resolver's accessible
  set; on a well-formed board the rows and columns read at these squares exist.
\<close>

theorem candidate_squares_on_board:
  assumes "wf_board b" and "consistent b" and "on_board b S"
  shows "(\<forall>q \<in> set (getAvailableSquares p).
            0 \<le> fst q \<and> fst q < 7 \<and> 0 \<le> snd q \<and> snd q < 8 \<and>
            nat (snd q) < length b \<and> nat (fst q) < length (b ! nat (snd q))) \<and>
         (\<exists>r. getAllAccessibleSquaresForBoard S S b = Some r \<and>
            (\<forall>q \<in> set (accessibleSquares r).
               0 \<le> fst q \<and> fst q < 7 \<and> 0 \<le> snd q \<and> snd q < 8 \<and>
               nat (snd q) < length b \<and> nat (fst q) < length (b ! nat (snd q))))"
proof -
  have v: "0 \<le> fst q \<and> fst q < 7 \<and> 0 \<le> snd q \<and> snd q < 8 \<and>
            nat (snd q) < length b \<and> nat (fst q) < length (b ! nat (snd q))"
    if "q \<in> set (getAvailableSquares t)" for q t
    using available_valid [OF that] valid_in_grid [OF assms(1), of "fst q" "snd q"]
    by (simp add: isValidPosition_def BOARD_WIDTH_def BOARD_HEIGHT_def)
  from resolver_returns_id [OF assms]
  obtain r where r: "getAllAccessibleSquaresForBoard S S b = Some r"
    and a: "set (accessibleSquares r) =
       {q. \<exists>p \<in> linked b S. q \<in> set (getAvailableSquares p) \<and> (p \<noteq> S \<or> piece_at b q \<noteq> None)}"
    by blast
  from a v have "\<forall>q \<in> set (accessibleSquares r).
               0 \<le> fst q \<and> fst q < 7 \<and> 0 \<le> snd q \<and> snd q < 8 \<and>
               nat (snd q) < length b \<and> nat (fst q) < length (b ! nat (snd q))"
    by blast
  with r v show ?thesis
    by blast
qed

theorem candidate_squares_on_board_witness:
  "wf_board board_chain \<and> consistent board_chain \<and> on_board board_chain chainA \<and>
   map (\<lambda>d. (px corner + fst d, py corner + snd d)) (adjusted corner) = [(0, - 1), (0, 1), (- 2, 0), (2, 0)] \<and>
   getAvailableSquares corner = [(0, 1), (2, 0)] \<and>
   list_all (\<lambda>q. 0 \<le> fst q \<and> fst q < 7 \<and> 0 \<le> snd q \<and> snd q < 8 \<and>
       nat (snd q) < length board_chain \<and> nat (fst q) < length (board_chain ! nat (snd q)))
     (getAvailableSquares corner) \<and>
   list_all (\<lambda>q. 0 \<le> fst q \<and> fst q < 7 \<and> 0 \<le> snd q \<and> snd q < 8 \<and>
       nat (snd q) < length board_chain \<and> nat (fst q) < length (board_chain ! nat (snd q)))
     (accessibleSquares (the (getAllAccessibleSquaresForBoard chainA chainA board_chain)))"
proof -
  note ok = board_chain_ok
  have c: "map (\<lambda>d. (px corner + fst d, py corner + snd d)) (adjusted corner) = [(0, - 1), (0, 1), (- 2, 0), (2, 0)]"
    "getAvailableSquares corner = [(0, 1), (2, 0)]"
    by code_simp+
  from candidate_squares_on_board [of board_chain chainA corner] ok
  show ?thesis
    unfolding list_all_iff c by auto
qed

section \<open>Claim about the path finder\<close>

text \<open>
  Claim C1. On a well-formed, consistent board with the selected piece \<open>S\<close> standing on it,
  for every destination \<open>D\<close> of the resolver's accessible set the path finder returns a
  path that is not empty, starts at the position of \<open>S\<close> and ends at \<open>D\<close>; read from \<open>D\<close>
  back to \<open>S\<close>, every position is a candidate square of the piece standing on the next
  one; and when \<open>D\<close> is empty the position next to \<open>D\<close>, the owner of the first hop, is not
  that of \<open>S\<close>. The path finder returns \<^verbatim>\<open>null\<close> only for a destination outside the
  accessible set.
\<close>

theorem path_consistency:
  assumes "wf_board b" and "consistent b" and "on_board b S"
  shows "\<exists>r. getAllAccessibleSquaresForBoard S S b = Some r \<and>
     (\<forall>D \<in> set (accessibleSquares r). \<exists>path.
         findMovementPathForBoard S D b = Some (Some path) \<and> path \<noteq> [] \<and>
         hd path = keyXY S \<and> last path = D \<and> chain_ok b (rev path) \<and>
         (piece_at b D = None \<longrightarrow> 3 \<le> length path \<and> rev path ! 1 \<noteq> keyXY S)) \<and>
     (\<forall>D. findMovementPathForBoard S D b = Some None \<longrightarrow> D \<notin> set (accessibleSquares r))"
proof -
  from resolver_returns_id [OF assms]
  obtain r where r: "getAllAccessibleSquaresForBoard S S b = Some r"
    and v: "set (visitedPieces r) = keyXY ` linked b S"
    and a: "set (accessibleSquares r) =
       {q. \<exists>p \<in> linked b S. q \<in> set (getAvailableSquares p) \<and> (p \<noteq> S \<or> piece_at b q \<noteq> None)}"
    by blast
  have 1: "\<exists>path. findMovementPathForBoard S D b = Some (Some path) \<and> path \<noteq> [] \<and>
         hd path = keyXY S \<and> last path = D \<and> chain_ok b (rev path) \<and>
         (piece_at b D = None \<longrightarrow> 3 \<le> length path \<and> rev path ! 1 \<noteq> keyXY S)"
    if "D \<in> set (accessibleSquares r)" for D
    using that unfolding a by (intro path_found [OF assms r v]) simp
  then have 2: "D \<notin> set (accessibleSquares r)" if "findMovementPathForBoard S D b = Some None" for D
    using that by fastforce
  from r 1 2 show ?thesis
    by blast
qed

theorem path_consistency_witness:
  "wf_board board_chain \<and> consistent board_chain \<and> on_board board_chain chainA \<and>
   getAllAccessibleSquaresForBoard chainA chainA board_chain =
     Some \<lparr>accessibleSquares = [(3, 6), (3, 5), (2, 6), (4, 7)], visitedPositions = [(2, 6), (4, 7)],
           visitedPieces = [(3, 7), (3, 6)]\<rparr> \<and>
   piece_at board_chain (2, 6) = None \<and>
   findMovementPathForBoard chainA (2, 6) board_chain = Some (Some [(3, 7), (3, 6), (2, 6)]) \<and>
   chain_ok board_chain [(2, 6), (3, 6), (3, 7)] \<and>
   findMovementPathForBoard chainA (3, 5) board_chain = Some (Some [(3, 7), (3, 5)]) \<and>
   findMovementPathForBoard chainA (5, 5) board_chain = Some None \<and>
   (5, 5) \<notin> set [(3, 6), (3, 5), (2, 6), (4, 7) :: pos]"
proof -
  note ok = board_chain_ok
  have e: "piece_at board_chain (2, 6) = None"
    "findMovementPathForBoard chainA (2, 6) board_chain = Some (Some [(3, 7), (3, 6), (2, 6)])"
    "findMovementPathForBoard chainA (3, 5) board_chain = Some (Some [(3, 7), (3, 5)])"
    "findMovementPathForBoard chainA (5, 5) board_chain = Some None"
    by code_simp+
  from path_consistency [of board_chain chainA] ok board_chain_resolved e(2,4)
  have "chain_ok board_chain (rev [(3, 7), (3, 6), (2, 6)])"
    and "(5, 5) \<notin> set [(3, 6), (3, 5), (2, 6), (4, 7) :: pos]"
    by auto
  with ok board_chain_resolved e show ?thesis
    by simp
qed

section \<open>Claims about promotion and the change of turn\<close>




text \<open>
  Claim C7, as amended. A live move is completed when the player's tap on a highlighted
  square (\<^verbatim>\<open>onPointerDown\<close>: a relocation to an empty square or a swap) or the bot's action
  (\<^verbatim>\<open>thinkAndMove\<close>) has been animated and \<^verbatim>\<open>update\<close> has run its block.

  The move sets no \<^verbatim>\<open>movedLastTurn\<close> flag: when the animation ends the flags are those from
  before the move, piece by piece. After the call every piece is a piece from before the
  move, with its id and owner, and its flag is set only if the move ended the game and
  the flag was set before; when the game goes on, \<^verbatim>\<open>endTurn\<close> has cleared the flag of every
  piece, of the moved piece and of a piece it was swapped with.

  A tap never selects a piece of the player who moved, whether the game goes on or not.
  When the game goes on, the turn has passed to the other player, a piece passes
  \<^verbatim>\<open>canBeSelected\<close> exactly when it belongs to the player now to move, every grid cell holds
  a piece of the collection, and in every state in which it is still that player's turn a
  tap selects no piece of the player who moved. The next completed live move that does
  not end the game gives the turn back, and then every piece of the player who moved
  first passes \<^verbatim>\<open>canBeSelected\<close>.
\<close>

theorem moved_piece_after_turn:
  assumes mv: "(g1 = g \<and> r = sel \<and> dest = sq \<and> moveOrSwap g h sel sq = Some g') \<or>
     (g1 = bot_rotated g a \<and> List.find (\<lambda>pp. pid pp = move_id a) (pieces g1) = Some r \<and>
        dest = move_dest a \<and> thinkAndMove g (Some a) = Some g')"
  shows "(\<exists>path. findMovementPathForBoard r dest (grid g1) = Some (Some path) \<and>
        g' = update_after_animation (animation_done g1 r path (cell (grid g1) (fst dest) (snd dest))) \<and>
        map pid (pieces (animation_done g1 r path (cell (grid g1) (fst dest) (snd dest))))
          = map pid (pieces g) \<and>
        map movedLastTurn (pieces (animation_done g1 r path (cell (grid g1) (fst dest) (snd dest))))
          = map movedLastTurn (pieces g)) \<and>
     (\<forall>p \<in> set (pieces g'). \<exists>q \<in> set (pieces g). pid q = pid p \<and> player q = player p \<and>
        (movedLastTurn p \<longrightarrow> gameOver g' \<and> movedLastTurn q)) \<and>
     (\<forall>s p. selectPiece g' s = Some p \<longrightarrow> player p \<noteq> currentPlayer g) \<and>
     (\<not> gameOver g' \<longrightarrow>
        currentPlayer g' \<noteq> currentPlayer g \<and>
        (\<forall>p \<in> set (pieces g'). \<not> movedLastTurn p \<and>
           (canBeSelected p (currentPlayer g') \<longleftrightarrow> player p = currentPlayer g')) \<and>
        (\<forall>x y p. cell (grid g') x y = Some p \<longrightarrow> p \<in> set (pieces g')) \<and>
        (r \<in> set (pieces g1) \<and> distinct (map pid (pieces g)) \<and> player r = currentPlayer g \<longrightarrow>
           (\<forall>p \<in> set (pieces g'). pid p = pid r \<longrightarrow>
              \<not> movedLastTurn p \<and> \<not> canBeSelected p (currentPlayer g'))) \<and>
        (\<forall>g2 s p. currentPlayer g2 = currentPlayer g' \<and> selectPiece g2 s = Some p \<longrightarrow>
           player p \<noteq> currentPlayer g) \<and>
        (currentPlayer g = 1 \<or> currentPlayer g = 2 \<longrightarrow>
           (\<forall>g2 h2 s2 q2 a2 g3. currentPlayer g2 = currentPlayer g' \<and>
              (moveOrSwap g2 h2 s2 q2 = Some g3 \<or> thinkAndMove g2 (Some a2) = Some g3) \<and>
              \<not> gameOver g3 \<longrightarrow>
              currentPlayer g3 = currentPlayer g \<and>
              (\<forall>p \<in> set (pieces g3). player p = currentPlayer g \<longrightarrow>
                 canBeSelected p (currentPlayer g3)))))"
proof -
  from live_move_frame [OF mv]
  obtain path where f: "findMovementPathForBoard r dest (grid g1) = Some (Some path)"
    and g': "g' = update_after_animation (animation_done g1 r path (cell (grid g1) (fst dest) (snd dest)))"
    and cp1: "currentPlayer g1 = currentPlayer g"
    and i1: "map pid (pieces g1) = map pid (pieces g)"
    and p1: "map player (pieces g1) = map player (pieces g)"
    and f1: "map movedLastTurn (pieces g1) = map movedLastTurn (pieces g)"
    by (elim exE conjE) (rule that, assumption+)
  let ?ga = "animation_done g1 r path (cell (grid g1) (fst dest) (snd dest))"
  have ia: "map pid (pieces ?ga) = map pid (pieces g)"
    unfolding i1 [symmetric] by (rule animation_done_fields) simp
  have pa: "map player (pieces ?ga) = map player (pieces g)"
    unfolding p1 [symmetric] by (rule animation_done_fields) simp
  have fa: "map movedLastTurn (pieces ?ga) = map movedLastTurn (pieces g)"
    unfolding f1 [symmetric] by (rule animation_done_fields) simp
  have orig: "\<exists>q \<in> set (pieces g). pid q = pid p \<and> player q = player p \<and>
      movedLastTurn q = movedLastTurn p" if "p \<in> set (pieces ?ga)" for p
    using ia pa fa that by (rule corresponding)
  have orig1: "\<exists>q \<in> set (pieces g). pid q = pid p \<and> player q = player p \<and>
      movedLastTurn q = movedLastTurn p" if "p \<in> set (pieces g1)" for p
    using i1 p1 f1 that by (rule corresponding)
  from update_after_animation_cases [of ?ga]
  obtain g3 where sub: "\<forall>p \<in> set (pieces g3). p \<in> set (pieces ?ga)"
    and cp3: "currentPlayer g3 = currentPlayer g"
    and cells: "\<forall>x y p. cell (grid g3) x y = Some p \<longrightarrow> p \<in> set (pieces g3)"
    and u: "g' = (if gameOver g3 then g3 else endTurn g3)"
    unfolding g' [symmetric] animation_done_simps cp1 by (elim exE conjE) (rule that, assumption+)
  have over: "gameOver g' = gameOver g3"
    unfolding u by simp
  have e: "g' = endTurn g3" if "\<not> gameOver g'"
    using that u over by simp
  have 1: "\<forall>p \<in> set (pieces g'). \<exists>q \<in> set (pieces g). pid q = pid p \<and> player q = player p \<and>
        (movedLastTurn p \<longrightarrow> gameOver g' \<and> movedLastTurn q)"
  proof
    fix p
    assume p: "p \<in> set (pieces g')"
    show "\<exists>q \<in> set (pieces g). pid q = pid p \<and> player q = player p \<and>
        (movedLastTurn p \<longrightarrow> gameOver g' \<and> movedLastTurn q)"
    proof (cases "gameOver g'")
      case True
      with u over p have "p \<in> set (pieces g3)"
        by simp
      with sub have "p \<in> set (pieces ?ga)"
        by blast
      from orig [OF this] True show ?thesis
        by auto
    next
      case False
      from p obtain q where q: "q \<in> set (pieces g3)" "pid q = pid p" "player q = player p"
        unfolding e [OF False] endTurn_pieces by auto
      from p have n: "\<not> movedLastTurn p"
        unfolding e [OF False] using endTurn_selectable by blast
      from q(1) sub have "q \<in> set (pieces ?ga)"
        by blast
      from orig [OF this] obtain q' where "q' \<in> set (pieces g)" "pid q' = pid q" "player q' = player q"
        by blast
      with q(2,3) n show ?thesis
        by auto
    qed
  qed
  have c': "currentPlayer g' \<noteq> currentPlayer g" if "\<not> gameOver g'"
    unfolding e [OF that] using cp3 other_player [of "currentPlayer g"] by simp
  have sel': "\<not> movedLastTurn p \<and> (canBeSelected p (currentPlayer g') \<longleftrightarrow> player p = currentPlayer g')"
    if "\<not> gameOver g'" "p \<in> set (pieces g')" for p
    using that(2) unfolding e [OF that(1)] by (rule endTurn_selectable)
  have 2: "\<forall>s p. selectPiece g' s = Some p \<longrightarrow> player p \<noteq> currentPlayer g"
  proof (intro allI impI)
    fix s p
    assume "selectPiece g' s = Some p"
    then have "\<not> gameOver g'" and "canBeSelected p (currentPlayer g')"
      by (auto simp: selectPiece_def split: if_splits option.splits)
    with c' show "player p \<noteq> currentPlayer g"
      by (auto simp: canBeSelected_def)
  qed
  have 3: "p \<in> set (pieces g')" if n: "\<not> gameOver g'" and c: "cell (grid g') x y = Some p" for x y p
  proof -
    from c obtain q where q: "cell (grid g3) x y = Some q"
      and p: "p = (if pid q \<in> set (map pid (pieces g3)) then clear_flags (currentPlayer (endTurn g3)) q else q)"
      unfolding e [OF n] endTurn_cell by auto
    from q cells have "q \<in> set (pieces g3)"
      by blast
    with p show ?thesis
      unfolding e [OF n] endTurn_pieces by auto
  qed
  have 4: "\<not> movedLastTurn p \<and> \<not> canBeSelected p (currentPlayer g')"
    if n: "\<not> gameOver g'" and r: "r \<in> set (pieces g1)" and ids: "distinct (map pid (pieces g))"
      and own: "player r = currentPlayer g" and p: "p \<in> set (pieces g')" and i: "pid p = pid r"
    for p
  proof -
    from 1 p obtain q where q: "q \<in> set (pieces g)" "pid q = pid p" "player q = player p"
      by blast
    from orig1 [OF r] obtain q' where q': "q' \<in> set (pieces g)" "pid q' = pid r" "player q' = player r"
      by blast
    from ids q(1,2) q'(1,2) i have "q = q'"
      by (metis distinct_map inj_onD)
    with q(3) q'(3) own c' [OF n] have "player p \<noteq> currentPlayer g'"
      by simp
    with sel' [OF n p] show ?thesis
      by blast
  qed
  have 5: "player p \<noteq> currentPlayer g"
    if "\<not> gameOver g'" "currentPlayer g2 = currentPlayer g'" "selectPiece g2 s = Some p" for g2 s p
  proof -
    from that(3) have "canBeSelected p (currentPlayer g2)"
      by (auto simp: selectPiece_def split: if_splits option.splits)
    with that(2) c' [OF that(1)] show ?thesis
      by (auto simp: canBeSelected_def)
  qed
  have 6: "currentPlayer g3' = currentPlayer g \<and>
       (\<forall>p \<in> set (pieces g3'). player p = currentPlayer g \<longrightarrow> canBeSelected p (currentPlayer g3'))"
    if n: "\<not> gameOver g'" and two: "currentPlayer g = 1 \<or> currentPlayer g = 2"
      and c2: "currentPlayer g2 = currentPlayer g'"
      and m2: "moveOrSwap g2 h2 s2 q2 = Some g3' \<or> thinkAndMove g2 (Some a2) = Some g3'"
      and n3: "\<not> gameOver g3'"
    for g2 h2 s2 q2 a2 g3'
  proof -
    from live_move_update [OF m2] obtain gb where
      b: "g3' = update_after_animation gb" "currentPlayer gb = currentPlayer g2"
      by blast
    from update_after_animation_cases [of gb]
    obtain g4 where c4: "currentPlayer g4 = currentPlayer gb"
      and u4: "update_after_animation gb = (if gameOver g4 then g4 else endTurn g4)"
      by (elim exE conjE) (rule that, assumption+)
    from u4 b(1) n3 have "\<not> gameOver g4"
      by (cases "gameOver g4") simp_all
    with u4 b(1) c4 have g4: "g3' = endTurn g4" "currentPlayer g4 = currentPlayer gb"
      by simp_all
    have "currentPlayer g' = (if currentPlayer g = 1 then 2 else 1)"
      unfolding e [OF n] using cp3 by simp
    with g4 b(2) c2 two have c3: "currentPlayer g3' = currentPlayer g"
      by auto
    have "canBeSelected p (currentPlayer g3')"
      if "p \<in> set (pieces g3')" "player p = currentPlayer g" for p
      using endTurn_selectable [of p g4] that c3 unfolding g4(1) by simp
    with c3 show ?thesis
      by blast
  qed
  have A: "\<exists>path. findMovementPathForBoard r dest (grid g1) = Some (Some path) \<and>
        g' = update_after_animation (animation_done g1 r path (cell (grid g1) (fst dest) (snd dest))) \<and>
        map pid (pieces (animation_done g1 r path (cell (grid g1) (fst dest) (snd dest))))
          = map pid (pieces g) \<and>
        map movedLastTurn (pieces (animation_done g1 r path (cell (grid g1) (fst dest) (snd dest))))
          = map movedLastTurn (pieces g)"
    using f g' ia fa by blast
  have B: "\<not> gameOver g' \<longrightarrow>
        currentPlayer g' \<noteq> currentPlayer g \<and>
        (\<forall>p \<in> set (pieces g'). \<not> movedLastTurn p \<and>
           (canBeSelected p (currentPlayer g') \<longleftrightarrow> player p = currentPlayer g')) \<and>
        (\<forall>x y p. cell (grid g') x y = Some p \<longrightarrow> p \<in> set (pieces g')) \<and>
        (r \<in> set (pieces g1) \<and> distinct (map pid (pieces g)) \<and> player r = currentPlayer g \<longrightarrow>
           (\<forall>p \<in> set (pieces g'). pid p = pid r \<longrightarrow>
              \<not> movedLastTurn p \<and> \<not> canBeSelected p (currentPlayer g'))) \<and>
        (\<forall>g2 s p. currentPlayer g2 = currentPlayer g' \<and> selectPiece g2 s = Some p \<longrightarrow>
           player p \<noteq> currentPlayer g) \<and>
        (currentPlayer g = 1 \<or> currentPlayer g = 2 \<longrightarrow>
           (\<forall>g2 h2 s2 q2 a2 g3. currentPlayer g2 = currentPlayer g' \<and>
              (moveOrSwap g2 h2 s2 q2 = Some g3 \<or> thinkAndMove g2 (Some a2) = Some g3) \<and>
              \<not> gameOver g3 \<longrightarrow>
              currentPlayer g3 = currentPlayer g \<and>
              (\<forall>p \<in> set (pieces g3). player p = currentPlayer g \<longrightarrow>
                 canBeSelected p (currentPlayer g3))))"
  proof (intro impI conjI allI ballI)
    assume n: "\<not> gameOver g'"
    show "currentPlayer g' \<noteq> currentPlayer g"
      using n by (rule c')
    show "\<not> movedLastTurn p" if "p \<in> set (pieces g')" for p
      using sel' [OF n that] by blast
    show "canBeSelected p (currentPlayer g') \<longleftrightarrow> player p = currentPlayer g'"
      if "p \<in> set (pieces g')" for p
      using sel' [OF n that] by blast
    show "p \<in> set (pieces g')" if "cell (grid g') x y = Some p" for x y p
      using n that by (rule 3)
    show "\<not> movedLastTurn p"
      if "r \<in> set (pieces g1) \<and> distinct (map pid (pieces g)) \<and> player r = currentPlayer g"
        "p \<in> set (pieces g')" "pid p = pid r" for p
      using 4 [OF n] that by blast
    show "\<not> canBeSelected p (currentPlayer g')"
      if "r \<in> set (pieces g1) \<and> distinct (map pid (pieces g)) \<and> player r = currentPlayer g"
        "p \<in> set (pieces g')" "pid p = pid r" for p
      using 4 [OF n] that by blast
    show "player p \<noteq> currentPlayer g"
      if "currentPlayer g2 = currentPlayer g' \<and> selectPiece g2 s = Some p" for g2 s p
      using 5 [OF n] that by blast
    show "currentPlayer g3 = currentPlayer g"
      if "currentPlayer g = 1 \<or> currentPlayer g = 2"
        "currentPlayer g2 = currentPlayer g' \<and>
              (moveOrSwap g2 h2 s2 q2 = Some g3 \<or> thinkAndMove g2 (Some a2) = Some g3) \<and>
              \<not> gameOver g3" for g2 h2 s2 q2 a2 g3
      using 6 [OF n that(1), of g2 h2 s2 q2 g3 a2] that(2) by blast
    show "canBeSelected p (currentPlayer g3)"
      if "currentPlayer g = 1 \<or> currentPlayer g = 2"
        "currentPlayer g2 = currentPlayer g' \<and>
              (moveOrSwap g2 h2 s2 q2 = Some g3 \<or> thinkAndMove g2 (Some a2) = Some g3) \<and>
              \<not> gameOver g3" "p \<in> set (pieces g3)" "player p = currentPlayer g"
      for g2 h2 s2 q2 a2 g3 p
      using 6 [OF n that(1), of g2 h2 s2 q2 g3 a2] that(2,3,4) by blast
  qed
  from A 1 2 B show ?thesis
    by (intro conjI)
qed

theorem moved_piece_after_turn_witness:
  "moveOrSwap duel_game chain_squares chainA (2, 6) \<noteq> None \<and>
   \<not> gameOver (the (moveOrSwap duel_game chain_squares chainA (2, 6))) \<and>
   distinct (map pid (pieces duel_game)) \<and> chainA \<in> set (pieces duel_game) \<and>
   player chainA = currentPlayer duel_game \<and> currentPlayer duel_game = 1 \<and>
   map pid (pieces (the (moveOrSwap duel_game chain_squares chainA (2, 6)))) = [1, 2, 3, 12, 13] \<and>
   map keyXY (pieces (the (moveOrSwap duel_game chain_squares chainA (2, 6))))
     = [(2, 6), (3, 6), (3, 5), (6, 0), (6, 2)] \<and>
   map player (pieces (the (moveOrSwap duel_game chain_squares chainA (2, 6)))) = [1, 1, 2, 2, 2] \<and>
   currentPlayer (the (moveOrSwap duel_game chain_squares chainA (2, 6))) = 2 \<and>
   list_all (\<lambda>p. \<not> movedLastTurn p \<and> (canBeSelected p 2 \<longleftrightarrow> player p = 2))
     (pieces (the (moveOrSwap duel_game chain_squares chainA (2, 6)))) \<and>
   selectPiece (the (moveOrSwap duel_game chain_squares chainA (2, 6))) (2, 6) = None \<and>
   thinkAndMove (the (moveOrSwap duel_game chain_squares chainA (2, 6))) (Some bot_reply) \<noteq> None \<and>
   \<not> gameOver (the (thinkAndMove (the (moveOrSwap duel_game chain_squares chainA (2, 6))) (Some bot_reply))) \<and>
   currentPlayer (the (thinkAndMove (the (moveOrSwap duel_game chain_squares chainA (2, 6))) (Some bot_reply))) = 1 \<and>
   map keyXY (pieces (the (thinkAndMove (the (moveOrSwap duel_game chain_squares chainA (2, 6))) (Some bot_reply))))
     = [(2, 6), (3, 6), (3, 5), (6, 2), (6, 0)] \<and>
   map (\<lambda>p. canBeSelected p 1)
     (pieces (the (thinkAndMove (the (moveOrSwap duel_game chain_squares chainA (2, 6))) (Some bot_reply))))
     = [True, True, False, False, False] \<and>
   map_option pid
     (selectPiece (the (thinkAndMove (the (moveOrSwap duel_game chain_squares chainA (2, 6))) (Some bot_reply)))
        (2, 6)) = Some 1"
proof -
  let ?g' = "the (moveOrSwap duel_game chain_squares chainA (2, 6))"
  let ?g3 = "the (thinkAndMove ?g' (Some bot_reply))"
  have mv: "moveOrSwap duel_game chain_squares chainA (2, 6) \<noteq> None"
    by code_simp
  then have mv': "moveOrSwap duel_game chain_squares chainA (2, 6) = Some ?g'"
    by simp
  have h: "\<not> gameOver ?g'" "distinct (map pid (pieces duel_game))" "chainA \<in> set (pieces duel_game)"
    "player chainA = currentPlayer duel_game" "currentPlayer duel_game = 1"
    by code_simp+
  have e: "map pid (pieces ?g') = [1, 2, 3, 12, 13]"
    "map keyXY (pieces ?g') = [(2, 6), (3, 6), (3, 5), (6, 0), (6, 2)]"
    "map player (pieces ?g') = [1, 1, 2, 2, 2]"
    by code_simp+
  have m3: "thinkAndMove ?g' (Some bot_reply) \<noteq> None"
    by code_simp
  then have m3': "thinkAndMove ?g' (Some bot_reply) = Some ?g3"
    by simp
  have e3: "\<not> gameOver ?g3" "map keyXY (pieces ?g3) = [(2, 6), (3, 6), (3, 5), (6, 2), (6, 0)]"
    "map (\<lambda>p. canBeSelected p 1) (pieces ?g3) = [True, True, False, False, False]"
    "map_option pid (selectPiece ?g3 (2, 6)) = Some 1"
    by code_simp+
  have prem: "(duel_game = duel_game \<and> chainA = chainA \<and> (2 :: int, 6 :: int) = (2, 6) \<and>
       moveOrSwap duel_game chain_squares chainA (2, 6) = Some ?g') \<or>
     (duel_game = bot_rotated duel_game bot_reply \<and>
        List.find (\<lambda>pp. pid pp = move_id bot_reply) (pieces duel_game) = Some chainA \<and>
        (2, 6) = move_dest bot_reply \<and> thinkAndMove duel_game (Some bot_reply) = Some ?g')"
    using mv' by simp
  note t = moved_piece_after_turn [OF prem]
  note B = t [THEN conjunct2, THEN conjunct2, THEN conjunct2, rule_format, OF h(1)]
  from B have c: "currentPlayer ?g' \<noteq> currentPlayer duel_game"
    by (rule conjunct1)
  have cp: "currentPlayer ?g' = 2"
    by code_simp
  from B have fl: "\<forall>p \<in> set (pieces ?g'). \<not> movedLastTurn p \<and>
         (canBeSelected p (currentPlayer ?g') \<longleftrightarrow> player p = currentPlayer ?g')"
    by (rule conjunct2 [THEN conjunct1])
  then have la: "list_all (\<lambda>p. \<not> movedLastTurn p \<and> (canBeSelected p 2 \<longleftrightarrow> player p = 2)) (pieces ?g')"
    unfolding list_all_iff cp .
  have s0: "selectPiece ?g' (2, 6) = None"
    by code_simp
  have two: "currentPlayer duel_game = 1 \<or> currentPlayer duel_game = 2"
    using h(5) by simp
  note N = B [THEN conjunct2, THEN conjunct2, THEN conjunct2, THEN conjunct2, THEN conjunct2,
      rule_format, OF two]
  have "currentPlayer ?g' = currentPlayer ?g' \<and>
      (moveOrSwap ?g' [] chainA (0, 0) = Some ?g3 \<or> thinkAndMove ?g' (Some bot_reply) = Some ?g3) \<and>
      \<not> gameOver ?g3"
    using m3' e3(1) by simp
  from N [OF this] h(5) have c3: "currentPlayer ?g3 = 1"
    by simp
  from mv h e cp la s0 m3 e3 c3 show ?thesis
    by simp
qed

text \<open>
  The claim as stated, with the flag of the moved piece set, fails on the move of the
  piece at \<open>(3, 7)\<close> to the empty square \<open>(2, 6)\<close>: the flag of the moved piece is unset
  when the animation ends and when the turn has changed. After the swap with the friendly
  piece at \<open>(3, 6)\<close> the flags of both participants are unset, and so are all flags after
  a swap made by the bot.
\<close>

theorem moved_piece_after_turn_counterexample:
  "currentPlayer chain_game = 1 \<and> \<not> gameOver chain_game \<and>
   map pid (pieces chain_game) = [1, 2, 3] \<and>
   map keyXY (pieces chain_game) = [(3, 7), (3, 6), (3, 5)] \<and>
   map player (pieces chain_game) = [1, 1, 2] \<and>
   hd (pieces chain_game) = chainA \<and> canBeSelected chainA (currentPlayer chain_game) \<and>
   selectPiece chain_game (3, 7) = Some chainA \<and>
   getAllAccessibleSquaresForBoard chainA chainA (grid chain_game) \<noteq> None \<and>
   accessibleSquares (the (getAllAccessibleSquaresForBoard chainA chainA (grid chain_game)))
     = chain_squares \<and>
   (2, 6) \<in> set chain_squares \<and> (3, 6) \<in> set chain_squares \<and>
   cell (grid chain_game) 2 6 = None \<and> cell (grid chain_game) 3 6 = Some chainB \<and>
   findMovementPathForBoard chainA (2, 6) (grid chain_game) = Some (Some [(3, 7), (3, 6), (2, 6)]) \<and>
   map keyXY (pieces (animation_done chain_game chainA [(3, 7), (3, 6), (2, 6)] None))
     = [(2, 6), (3, 6), (3, 5)] \<and>
   map movedLastTurn (pieces (animation_done chain_game chainA [(3, 7), (3, 6), (2, 6)] None))
     = [False, False, False] \<and>
   moveOrSwap chain_game chain_squares chainA (2, 6) \<noteq> None \<and>
   currentPlayer (the (moveOrSwap chain_game chain_squares chainA (2, 6))) = 2 \<and>
   map pid (pieces (the (moveOrSwap chain_game chain_squares chainA (2, 6)))) = [1, 2, 3] \<and>
   map keyXY (pieces (the (moveOrSwap chain_game chain_squares chainA (2, 6))))
     = [(2, 6), (3, 6), (3, 5)] \<and>
   map movedLastTurn (pieces (the (moveOrSwap chain_game chain_squares chainA (2, 6))))
     = [False, False, False] \<and>
   moveOrSwap chain_game chain_squares chainA (3, 6) \<noteq> None \<and>
   map pid (pieces (the (moveOrSwap chain_game chain_squares chainA (3, 6)))) = [1, 2, 3] \<and>
   map keyXY (pieces (the (moveOrSwap chain_game chain_squares chainA (3, 6))))
     = [(3, 6), (3, 7), (3, 5)] \<and>
   map movedLastTurn (pieces (the (moveOrSwap chain_game chain_squares chainA (3, 6))))
     = [False, False, False] \<and>
   thinkAndMove (the (moveOrSwap duel_game chain_squares chainA (2, 6))) (Some bot_reply) \<noteq> None \<and>
   map keyXY (pieces (the (thinkAndMove (the (moveOrSwap duel_game chain_squares chainA (2, 6)))
       (Some bot_reply))))
     = [(2, 6), (3, 6), (3, 5), (6, 2), (6, 0)] \<and>
   map movedLastTurn (pieces (the (thinkAndMove (the (moveOrSwap duel_game chain_squares chainA (2, 6)))
       (Some bot_reply))))
     = [False, False, False, False, False]"
  by code_simp

end
